theory Spec2Isabelle
  imports Complex_Main "HOL-Library.Word"
begin

section \<open>JavaScript numbers\<close>

text \<open>
  A JavaScript number is NaN, an infinity or a finite double. Finite doubles are read as
  the rationals they denote; the rounding of a sum, product or quotient to the nearest
  double, overflow to an infinity and the sign of zero are not represented. The
  multiplication by 1024 that turns megabytes into bytes is exact on doubles, so the
  byte counts below are the ones the program computes. The handlers are modelled from
  the numbers that \<open>parseFloat\<close> and \<open>parseInt\<close> return on the request (NaN for a
  parameter that is absent or does not start with a number), and from the readings of
  the clock \<open>getHighResolutionTime\<close>, which the environment supplies.
\<close>

datatype jsnum = NaN | NegInf | Fin rat | PosInf

text \<open>The sign of a number, and the infinity (or NaN) a sign stands for.\<close>

fun js_sign :: "jsnum \<Rightarrow> rat" where
  "js_sign NaN = 0"
| "js_sign NegInf = - 1"
| "js_sign (Fin x) = sgn x"
| "js_sign PosInf = 1"

definition inf_of_sign :: "rat \<Rightarrow> jsnum" where
  "inf_of_sign s = (if s > 0 then PosInf else if s < 0 then NegInf else NaN)"

fun js_neg :: "jsnum \<Rightarrow> jsnum" where
  "js_neg NaN = NaN"
| "js_neg NegInf = PosInf"
| "js_neg (Fin x) = Fin (- x)"
| "js_neg PosInf = NegInf"

fun js_add :: "jsnum \<Rightarrow> jsnum \<Rightarrow> jsnum" where
  "js_add (Fin x) (Fin y) = Fin (x + y)"
| "js_add NaN b = NaN"
| "js_add a NaN = NaN"
| "js_add PosInf NegInf = NaN"
| "js_add NegInf PosInf = NaN"
| "js_add PosInf b = PosInf"
| "js_add NegInf b = NegInf"
| "js_add (Fin x) b = b"

definition js_sub :: "jsnum \<Rightarrow> jsnum \<Rightarrow> jsnum" where
  "js_sub a b = js_add a (js_neg b)"

fun js_mul :: "jsnum \<Rightarrow> jsnum \<Rightarrow> jsnum" where
  "js_mul (Fin x) (Fin y) = Fin (x * y)"
| "js_mul NaN b = NaN"
| "js_mul a NaN = NaN"
| "js_mul a b = inf_of_sign (js_sign a * js_sign b)"

text \<open>Division: \<open>x / 0\<close> is an infinity of the sign of \<open>x\<close>, \<open>0 / 0\<close> is NaN.\<close>

fun js_div :: "jsnum \<Rightarrow> jsnum \<Rightarrow> jsnum" where
  "js_div (Fin x) (Fin y) = (if y = 0 then inf_of_sign (sgn x) else Fin (x / y))"
| "js_div NaN b = NaN"
| "js_div a NaN = NaN"
| "js_div (Fin x) b = Fin 0"
| "js_div a (Fin y) = inf_of_sign (js_sign a * (if y < 0 then - 1 else 1))"
| "js_div a b = NaN"

text \<open>Comparisons: every comparison with NaN is false.\<close>

fun js_lt :: "jsnum \<Rightarrow> jsnum \<Rightarrow> bool" where
  "js_lt (Fin x) (Fin y) = (x < y)"
| "js_lt NaN b = False"
| "js_lt a NaN = False"
| "js_lt NegInf NegInf = False"
| "js_lt NegInf b = True"
| "js_lt a PosInf = (a \<noteq> PosInf)"
| "js_lt a b = False"

definition js_gt :: "jsnum \<Rightarrow> jsnum \<Rightarrow> bool" where
  "js_gt a b = js_lt b a"

definition js_ge :: "jsnum \<Rightarrow> jsnum \<Rightarrow> bool" where
  "js_ge a b = (a \<noteq> NaN \<and> b \<noteq> NaN \<and> \<not> js_lt a b)"

definition isNaN :: "jsnum \<Rightarrow> bool" where
  "isNaN a = (a = NaN)"

text \<open>\<open>Math.max\<close> and \<open>Math.min\<close> of two numbers: NaN when either is.\<close>

definition Math_max :: "jsnum \<Rightarrow> jsnum \<Rightarrow> jsnum" where
  "Math_max a b = (if a = NaN \<or> b = NaN then NaN else if js_lt a b then b else a)"

definition Math_min :: "jsnum \<Rightarrow> jsnum \<Rightarrow> jsnum" where
  "Math_min a b = (if a = NaN \<or> b = NaN then NaN else if js_lt b a then b else a)"

text \<open>\<open>x || d\<close> on numbers: NaN and zero are falsy.\<close>

definition js_or :: "jsnum \<Rightarrow> jsnum \<Rightarrow> jsnum" where
  "js_or x d = (if x = NaN \<or> x = Fin 0 then d else x)"

section \<open>Payload generator and cache\<close>

type_synonym byte = "8 word"
type_synonym buffer = "byte list"

datatype js_error = RangeError

text \<open>
  The limits of the runtime: \<open>crypto.randomBytes\<close> accepts at most \<open>2^31 - 1\<close> bytes,
  \<open>Buffer.alloc\<close> at most \<open>buffer.constants.MAX_LENGTH\<close>, which is \<open>2^53 - 1\<close> on a
  current 64-bit runtime. Of the second limit the proofs use only that it is not below
  the first. Running out of memory is not modelled.
\<close>

definition kMaxPossibleLength :: rat where
  "kMaxPossibleLength = 2 ^ 31 - 1"

definition kMaxLength :: rat where
  "kMaxLength = 2 ^ 53 - 1"

text \<open>
  The process-wide state of the generator: the cache \<open>testDataCache\<close>, keyed by the
  template string of size and pattern (one key per pair), and the entropy that
  \<open>crypto.randomBytes\<close> will draw next.
\<close>

record gen_state =
  testDataCache :: "jsnum \<times> string \<Rightarrow> buffer option"
  entropy :: "nat \<Rightarrow> byte"

definition draw :: "nat \<Rightarrow> (nat \<Rightarrow> byte) \<Rightarrow> buffer" where
  "draw n e = map e [0..<n]"

text \<open>
  \<open>crypto.randomBytes(size)\<close>: a size that is NaN, negative or above the limit throws;
  a fractional size is truncated.
\<close>

fun randomBytes :: "jsnum \<Rightarrow> (nat \<Rightarrow> byte) \<Rightarrow> js_error + buffer \<times> (nat \<Rightarrow> byte)" where
  "randomBytes (Fin n) e =
     (if n < 0 \<or> n > kMaxPossibleLength then Inl RangeError
      else Inr (draw (nat \<lfloor>n\<rfloor>) e, \<lambda>i. e (i + nat \<lfloor>n\<rfloor>)))"
| "randomBytes a e = Inl RangeError"

text \<open>\<open>Buffer.alloc(size, fill)\<close>; \<open>Buffer.alloc(size)\<close> fills with zero.\<close>

fun Buffer_alloc :: "jsnum \<Rightarrow> byte \<Rightarrow> js_error + buffer" where
  "Buffer_alloc (Fin n) fill =
     (if n < 0 \<or> n > kMaxLength then Inl RangeError
      else Inr (replicate (nat \<lfloor>n\<rfloor>) fill))"
| "Buffer_alloc a fill = Inl RangeError"

text \<open>
  The loop \<open>for (let i = 0; i < sizeInBytes; i++) buffer[i] = (i * 137 + 19) % 256\<close>.
  A store beyond the end of a typed array is ignored, as \<open>list_update\<close> does.
\<close>

function fill_incompressible :: "rat \<Rightarrow> nat \<Rightarrow> buffer \<Rightarrow> buffer" where
  "fill_incompressible sizeInBytes i buf =
     (if of_nat i < sizeInBytes
      then fill_incompressible sizeInBytes (Suc i) (buf[i := of_nat ((i * 137 + 19) mod 256)])
      else buf)"
  by pat_completeness auto
termination
proof (relation "measure (\<lambda>(n, i, buf). nat \<lceil>n\<rceil> - i)")
  show "wf (measure (\<lambda>(n, i, buf). nat \<lceil>n\<rceil> - i))"
    by simp
next
  fix sizeInBytes :: rat and i :: nat and buf :: buffer
  assume lt: "of_nat i < sizeInBytes"
  have "int i < \<lceil>sizeInBytes\<rceil>"
    using lt by (simp add: less_ceiling_iff)
  then show "((sizeInBytes, Suc i, buf[i := of_nat ((i * 137 + 19) mod 256)]), (sizeInBytes, i, buf))
      \<in> measure (\<lambda>(n, i, buf). nat \<lceil>n\<rceil> - i)"
    by simp
qed

declare fill_incompressible.simps [simp del]

text \<open>The body of the \<open>switch (pattern)\<close>, run on a cache miss.\<close>

definition make_buffer :: "jsnum \<Rightarrow> string \<Rightarrow> (nat \<Rightarrow> byte) \<Rightarrow> js_error + buffer \<times> (nat \<Rightarrow> byte)" where
  "make_buffer sizeInBytes pattern e =
     (if pattern = ''random'' then randomBytes sizeInBytes e
      else if pattern = ''compressible'' then
        (case Buffer_alloc sizeInBytes 0x41 of
           Inl err \<Rightarrow> Inl err
         | Inr buf \<Rightarrow> Inr (buf, e))
      else if pattern = ''incompressible'' then
        (case Buffer_alloc sizeInBytes 0 of
           Inl err \<Rightarrow> Inl err
         | Inr buf \<Rightarrow>
             (case sizeInBytes of
                Fin n \<Rightarrow> Inr (fill_incompressible n 0 buf, e)
              | _ \<Rightarrow> Inr (buf, e)))
      else randomBytes sizeInBytes e)"

definition generateTestData :: "jsnum \<Rightarrow> string \<Rightarrow> gen_state \<Rightarrow> js_error + buffer \<times> gen_state" where
  "generateTestData sizeInMB pattern st =
     (case testDataCache st (sizeInMB, pattern) of
        Some cached \<Rightarrow> Inr (cached, st)
      | None \<Rightarrow>
          (let sizeInBytes = js_mul (js_mul sizeInMB (Fin 1024)) (Fin 1024) in
           case make_buffer sizeInBytes pattern (entropy st) of
             Inl err \<Rightarrow> Inl err
           | Inr (buf, e') \<Rightarrow>
               Inr (buf, st\<lparr>testDataCache := (testDataCache st)((sizeInMB, pattern) \<mapsto> buf),
                              entropy := e'\<rparr>)))"

text \<open>The state before the first call: an empty cache.\<close>

definition empty_state :: "(nat \<Rightarrow> byte) \<Rightarrow> gen_state" where
  "empty_state e = \<lparr>testDataCache = Map.empty, entropy = e\<rparr>"

text \<open>
  The start of the process generates the common sizes in the patterns random and
  compressible. No size here throws, so the calls are chained on their results.
\<close>

definition commonSizes :: "rat list" where
  "commonSizes = [1/10, 1/2, 1, 2, 5, 10, 25, 50]"

definition pregenerate :: "rat \<Rightarrow> gen_state \<Rightarrow> gen_state" where
  "pregenerate sz st =
     (case generateTestData (Fin sz) ''random'' st of
        Inl err \<Rightarrow> st
      | Inr (b, st1) \<Rightarrow>
          (case generateTestData (Fin sz) ''compressible'' st1 of
             Inl err \<Rightarrow> st1
           | Inr (b', st2) \<Rightarrow> st2))"

definition startup_state :: "(nat \<Rightarrow> byte) \<Rightarrow> gen_state" where
  "startup_state e = fold pregenerate commonSizes (empty_state e)"

text \<open>
  What the cache holds at any time: a buffer under the key of size \<open>s\<close> has
  \<open>\<lfloor>s * 1024 * 1024\<rfloor>\<close> bytes, and the two deterministic patterns have their content.
\<close>

definition byte_count :: "rat \<Rightarrow> nat" where
  "byte_count s = nat \<lfloor>s * 1024 * 1024\<rfloor>"

definition pattern_ok :: "string \<Rightarrow> buffer \<Rightarrow> bool" where
  "pattern_ok pattern buf =
     ((pattern = ''compressible'' \<longrightarrow> (\<forall>i < length buf. buf ! i = 0x41)) \<and>
      (pattern = ''incompressible'' \<longrightarrow>
         (\<forall>i < length buf. buf ! i = of_nat ((i * 137 + 19) mod 256))))"

definition cache_ok :: "gen_state \<Rightarrow> bool" where
  "cache_ok st =
     (\<forall>sz pattern buf. testDataCache st (sz, pattern) = Some buf \<longrightarrow>
        (\<exists>s. sz = Fin s \<and> 0 \<le> s \<and> length buf = byte_count s \<and> pattern_ok pattern buf))"

section \<open>Stream sessions\<close>

text \<open>
  A streaming handler runs as a chain of callbacks. Between two callbacks the environment
  acts: the event loop runs the armed immediate or timer callback (\<open>Fire\<close>), the sink
  emits \<open>drain\<close>, the response stream is destroyed, or one of the listeners for
  \<open>close\<close>, \<open>aborted\<close> and \<open>error\<close> runs \<open>cleanup\<close> (\<open>Close\<close>). \<open>Fire\<close> and \<open>Drain\<close> carry
  what the callback will observe: the reading of the clock and the reply of
  \<open>res.write\<close>, should the callback call them.
\<close>

datatype sink_reply = Accepted | Backpressure | Throws

datatype event = Fire rat sink_reply | Drain rat sink_reply | Destroy | Close

text \<open>The one continuation a session has registered, if any.\<close>

datatype pending =
    Idle
  | Immediate
  | OnDrain
  | Timer jsnum
  | DrainTimer jsnum
  | EndTimer jsnum

record session =
  isFinished :: bool
  destroyed :: bool
  ended :: bool
  errors :: nat
  pending :: pending

definition cleanup :: "'a session_scheme \<Rightarrow> 'a session_scheme" where
  "cleanup s = s\<lparr>isFinished := True\<rparr>"

definition res_end :: "'a session_scheme \<Rightarrow> 'a session_scheme" where
  "res_end s = s\<lparr>ended := True\<rparr>"

subsection \<open>Fixed-size download\<close>

record download_session = session +
  offset :: nat
  chunks :: "(nat \<times> buffer) list"

definition chunkSize :: nat where
  "chunkSize = 64 * 1024"

text \<open>\<open>buf.slice(a, b)\<close> for indices that are not negative.\<close>

definition Buffer_slice :: "buffer \<Rightarrow> nat \<Rightarrow> nat \<Rightarrow> buffer" where
  "Buffer_slice buf a b = take (min b (length buf) - a) (drop a buf)"

text \<open>
  \<open>chunks\<close> logs what \<open>res.write\<close> received, each chunk with the offset it was cut at.
  A write that throws leaves no entry, and the offset is not advanced.
\<close>

definition sendChunk :: "buffer \<Rightarrow> sink_reply \<Rightarrow> download_session \<Rightarrow> download_session" where
  "sendChunk testData reply s =
     (if isFinished s \<or> destroyed s then s\<lparr>pending := Idle\<rparr>
      else if offset s \<ge> length testData then cleanup (res_end (s\<lparr>pending := Idle\<rparr>))
      else
        (let chunk = Buffer_slice testData (offset s) (min (offset s + chunkSize) (length testData)) in
         case reply of
           Throws \<Rightarrow> cleanup (s\<lparr>pending := Idle, errors := errors s + 1\<rparr>)
         | Accepted \<Rightarrow>
             s\<lparr>pending := Immediate, offset := offset s + length chunk,
               chunks := chunks s @ [(offset s, chunk)]\<rparr>
         | Backpressure \<Rightarrow>
             s\<lparr>pending := OnDrain, offset := offset s + length chunk,
               chunks := chunks s @ [(offset s, chunk)]\<rparr>))"

fun download_event :: "buffer \<Rightarrow> event \<Rightarrow> download_session \<Rightarrow> download_session" where
  "download_event testData (Fire now reply) s =
     (if pending s = Immediate then sendChunk testData reply s else s)"
| "download_event testData (Drain now reply) s =
     (if pending s = OnDrain then sendChunk testData reply s else s)"
| "download_event testData Destroy s = s\<lparr>destroyed := True\<rparr>"
| "download_event testData Close s = cleanup s"

definition initial_download :: download_session where
  "initial_download =
     \<lparr>isFinished = False, destroyed = False, ended = False, errors = 0, pending = Idle,
      offset = 0, chunks = []\<rparr>"

text \<open>The handler calls \<open>sendChunk\<close> once itself; the events do the rest.\<close>

definition download_run :: "buffer \<Rightarrow> sink_reply \<Rightarrow> event list \<Rightarrow> download_session" where
  "download_run testData reply evs =
     fold (download_event testData) evs (sendChunk testData reply initial_download)"

text \<open>
  The route \<open>/api/download/:size\<close>. Its inputs are the result of \<open>parseFloat\<close> on the
  size and the pattern of the query, if any. A request is either answered at once with
  a status and a JSON body, or served as a stream; of the headers only \<open>Content-Length\<close> is kept.
\<close>

datatype 'a outcome = Rejected nat "(string \<times> string) list" | Served 'a

definition resolve_pattern :: "string option \<Rightarrow> string" where
  "resolve_pattern q = (case q of None \<Rightarrow> ''random'' | Some p \<Rightarrow> if p = [] then ''random'' else p)"

definition download_start :: "jsnum \<Rightarrow> string option \<Rightarrow> gen_state \<Rightarrow> buffer outcome \<times> gen_state" where
  "download_start sz q st =
     (let pattern = resolve_pattern q in
      if isNaN sz \<or> js_lt sz (Fin (1/10)) \<or> js_gt sz (Fin 10)
      then (Rejected 400 [(''error'', ''Invalid size. Must be between 0.1 and 10 MB'')], st)
      else
        (case generateTestData sz pattern st of
           Inl err \<Rightarrow> (Rejected 500 [(''error'', ''Failed to generate test data'')], st)
         | Inr (testData, st') \<Rightarrow> (Served testData, st')))"

definition download ::
  "jsnum \<Rightarrow> string option \<Rightarrow> gen_state \<Rightarrow> sink_reply \<Rightarrow> event list \<Rightarrow>
   (nat \<times> download_session) outcome \<times> gen_state" where
  "download sz q st reply evs =
     (case download_start sz q st of
        (Rejected code body, st') \<Rightarrow> (Rejected code body, st')
      | (Served testData, st') \<Rightarrow>
          (Served (length testData, download_run testData reply evs), st'))"

text \<open>The payload bytes a request put on the wire.\<close>

definition streamed :: "(nat \<times> download_session) outcome \<Rightarrow> buffer" where
  "streamed r = (case r of Rejected code body \<Rightarrow> [] | Served (n, s) \<Rightarrow> concat (map snd (chunks s)))"

text \<open>Chunks that follow one another from offset \<open>a\<close> on, none of them empty.\<close>

fun contiguous :: "nat \<Rightarrow> (nat \<times> buffer) list \<Rightarrow> bool" where
  "contiguous a [] = True"
| "contiguous a ((pos, c) # cs) = (pos = a \<and> c \<noteq> [] \<and> contiguous (a + length c) cs)"

subsection \<open>Connection warmup\<close>

text \<open>
  The sessions that arm timers log what they do to the sink and to the timers, in order:
  a buffer handed to \<open>res.write\<close>, a \<open>setTimeout\<close> with its delay, and \<open>res.end()\<close>.
\<close>

datatype action = Write buffer | SetTimeout jsnum | End

record timed_session = session +
  gen :: gen_state
  trace :: "action list"

definition end_response :: "'a timed_session_scheme \<Rightarrow> 'a timed_session_scheme" where
  "end_response s = s\<lparr>ended := True, trace := trace s @ [End]\<rparr>"

record phase =
  sizeMB :: rat
  delay :: rat

definition phases :: "phase list" where
  "phases =
     [\<lparr>sizeMB = 1/10, delay = 100\<rparr>, \<lparr>sizeMB = 1/2, delay = 150\<rparr>,
      \<lparr>sizeMB = 1, delay = 200\<rparr>, \<lparr>sizeMB = 2, delay = 250\<rparr>]"

record warmup_session = timed_session +
  currentPhase :: nat

definition sendPhase :: "sink_reply \<Rightarrow> warmup_session \<Rightarrow> warmup_session" where
  "sendPhase reply s =
     (if isFinished s \<or> destroyed s then s\<lparr>pending := Idle\<rparr>
      else if currentPhase s \<ge> length phases then cleanup (end_response (s\<lparr>pending := Idle\<rparr>))
      else
        (let phase = phases ! currentPhase s in
         case generateTestData (Fin (sizeMB phase)) ''random'' (gen s) of
           Inl err \<Rightarrow> cleanup (end_response (s\<lparr>pending := Idle, errors := errors s + 1\<rparr>))
         | Inr (phaseData, g) \<Rightarrow>
             (case reply of
                Throws \<Rightarrow>
                  cleanup (end_response (s\<lparr>pending := Idle, errors := errors s + 1, gen := g\<rparr>))
              | Accepted \<Rightarrow>
                  (if currentPhase s + 1 < length phases
                   then s\<lparr>pending := Timer (Fin (delay phase)), gen := g,
                          trace := trace s @ [Write phaseData, SetTimeout (Fin (delay phase))],
                          currentPhase := currentPhase s + 1\<rparr>
                   else s\<lparr>pending := EndTimer (Fin (delay phase)), gen := g,
                          trace := trace s @ [Write phaseData, SetTimeout (Fin (delay phase))],
                          currentPhase := currentPhase s + 1\<rparr>)
              | Backpressure \<Rightarrow>
                  (if currentPhase s + 1 < length phases
                   then s\<lparr>pending := DrainTimer (Fin (delay phase)), gen := g,
                          trace := trace s @ [Write phaseData],
                          currentPhase := currentPhase s + 1\<rparr>
                   else s\<lparr>pending := EndTimer (Fin (delay phase)), gen := g,
                          trace := trace s @ [Write phaseData, SetTimeout (Fin (delay phase))],
                          currentPhase := currentPhase s + 1\<rparr>))))"

text \<open>
  A timer that fires runs \<open>sendPhase\<close>, or after the last phase the closure that ends
  the response. A \<open>drain\<close> that was waited for arms the timer of the phase.
\<close>

fun warmup_event :: "event \<Rightarrow> warmup_session \<Rightarrow> warmup_session" where
  "warmup_event (Fire now reply) s =
     (case pending s of
        Timer d \<Rightarrow> sendPhase reply s
      | EndTimer d \<Rightarrow>
          (if \<not> isFinished s \<and> \<not> destroyed s then cleanup (end_response (s\<lparr>pending := Idle\<rparr>))
           else s\<lparr>pending := Idle\<rparr>)
      | _ \<Rightarrow> s)"
| "warmup_event (Drain now reply) s =
     (case pending s of
        DrainTimer d \<Rightarrow> s\<lparr>pending := Timer d, trace := trace s @ [SetTimeout d]\<rparr>
      | _ \<Rightarrow> s)"
| "warmup_event Destroy s = s\<lparr>destroyed := True\<rparr>"
| "warmup_event Close s = cleanup s"

definition initial_warmup :: "gen_state \<Rightarrow> warmup_session" where
  "initial_warmup g =
     \<lparr>isFinished = False, destroyed = False, ended = False, errors = 0, pending = Idle,
      gen = g, trace = [], currentPhase = 0\<rparr>"

definition warmup_run :: "gen_state \<Rightarrow> sink_reply \<Rightarrow> event list \<Rightarrow> warmup_session" where
  "warmup_run g reply evs = fold warmup_event evs (sendPhase reply (initial_warmup g))"

section \<open>Formatting with \<open>toFixed(3)\<close>\<close>

text \<open>The decimal digits of a natural number.\<close>

fun dec :: "nat \<Rightarrow> string" where
  "dec n =
     (if n < 10 then [''0123456789'' ! n] else dec (n div 10) @ [''0123456789'' ! (n mod 10)])"

declare dec.simps [simp del]

text \<open>
  \<open>Number.prototype.toFixed\<close> with three fraction digits: the nearest multiple of
  \<open>1/1000\<close>, the larger one on a tie, printed with a sign, the integer digits, a point and
  three digits. From \<open>10^21\<close> on the method prints with an exponent; that branch is not
  modelled (\<open>None\<close>).
\<close>

fun toFixed3 :: "jsnum \<Rightarrow> string option" where
  "toFixed3 NaN = Some ''NaN''"
| "toFixed3 PosInf = Some ''Infinity''"
| "toFixed3 NegInf = Some ''-Infinity''"
| "toFixed3 (Fin x) =
     (if \<bar>x\<bar> \<ge> 10 ^ 21 then None
      else
        (let n = nat \<lfloor>\<bar>x\<bar> * 1000 + 1/2\<rfloor>;
             m = (if length (dec n) \<le> 3 then replicate (4 - length (dec n)) CHR ''0'' @ dec n
                  else dec n);
             k = length m
         in Some ((if x < 0 then ''-'' else []) @ take (k - 3) m @ ''.'' @ drop (k - 3) m)))"

section \<open>Latency probe\<close>

record measurement =
  index :: nat
  clientStartTime :: rat
  serverTime :: rat
  latency :: rat

record statistics =
  stat_count :: nat
  average :: "string option"
  minimum :: "string option"
  maximum :: "string option"
  jitter :: "string option"

record latency_session =
  measurements :: "measurement list"
  completed :: nat
  timers :: "jsnum list"
  response :: "statistics option"

text \<open>\<open>Math.min(...xs)\<close> and \<open>Math.max(...xs)\<close>: the infinities on no argument.\<close>

definition Math_min_list :: "rat list \<Rightarrow> jsnum" where
  "Math_min_list xs = foldl (\<lambda>acc x. Math_min acc (Fin x)) PosInf xs"

definition Math_max_list :: "rat list \<Rightarrow> jsnum" where
  "Math_max_list xs = foldl (\<lambda>acc x. Math_max acc (Fin x)) NegInf xs"

definition compute_statistics :: "measurement list \<Rightarrow> nat \<Rightarrow> statistics" where
  "compute_statistics ms n =
     (let latencies = map latency ms;
          avg = js_div (Fin (foldl (+) 0 latencies)) (Fin (of_nat (length latencies)));
          mn = Math_min_list latencies;
          mx = Math_max_list latencies;
          jit = js_sub mx mn
      in \<lparr>stat_count = n, average = toFixed3 avg, minimum = toFixed3 mn,
          maximum = toFixed3 mx, jitter = toFixed3 jit\<rparr>)"

text \<open>
  \<open>performMeasurement\<close> reads the clock once in each call. The list holds the readings
  of the calls that happen; a call is followed by the next one when its timer fires.
\<close>

fun performMeasurement ::
  "jsnum \<Rightarrow> jsnum \<Rightarrow> rat \<Rightarrow> rat list \<Rightarrow> nat \<Rightarrow> latency_session \<Rightarrow> latency_session" where
  "performMeasurement count interval startTime [] i s = s"
| "performMeasurement count interval startTime (measurementTime # later) i s =
     (let s1 = s\<lparr>measurements := measurements s @
                  [\<lparr>index = i, clientStartTime = startTime, serverTime = measurementTime,
                    latency = measurementTime - startTime\<rparr>],
                completed := completed s + 1\<rparr>
      in if js_ge (Fin (of_nat (completed s1))) count
         then s1\<lparr>response := Some (compute_statistics (measurements s1) (completed s1))\<rparr>
         else performMeasurement count interval startTime later (i + 1)
                (s1\<lparr>timers := timers s1 @ [interval]\<rparr>))"

text \<open>
  The route \<open>/api/latency-advanced\<close>, from the results of \<open>parseInt\<close> on the two query
  parameters (NaN when absent or not a number).
\<close>

definition latency_count :: "jsnum \<Rightarrow> jsnum" where
  "latency_count count_q = Math_min (js_or count_q (Fin 5)) (Fin 10)"

definition latency_interval :: "jsnum \<Rightarrow> jsnum" where
  "latency_interval interval_q = Math_max (js_or interval_q (Fin 50)) (Fin 100)"

definition latency_advanced :: "jsnum \<Rightarrow> jsnum \<Rightarrow> rat \<Rightarrow> rat list \<Rightarrow> latency_session" where
  "latency_advanced count_q interval_q startTime readings =
     performMeasurement (latency_count count_q) (latency_interval interval_q) startTime readings 0
       \<lparr>measurements = [], completed = 0, timers = [], response = None\<rparr>"

section \<open>Upload\<close>

text \<open>
  The throughput both upload routes compute from the bytes received and the elapsed
  milliseconds: the quotient is taken only under the guard.
\<close>

definition speedMbps :: "nat \<Rightarrow> jsnum \<Rightarrow> jsnum" where
  "speedMbps dataSize totalTime =
     (if js_gt totalTime (Fin 0)
      then js_div (js_mul (Fin (of_nat dataSize)) (Fin 8))
             (js_mul (js_mul (js_div totalTime (Fin 1000)) (Fin 1024)) (Fin 1024))
      else Fin 0)"

text \<open>
  The data of a request: the file of the multipart form if there is one, else the raw
  body if it is a buffer.
\<close>

definition received :: "buffer option \<Rightarrow> buffer option \<Rightarrow> buffer option" where
  "received file body = (case file of Some f \<Rightarrow> Some f | None \<Rightarrow> body)"

record upload_reply =
  size_received :: nat
  processingTime :: jsnum
  totalTime :: jsnum
  speed :: jsnum
  speed_text :: "string option"

text \<open>
  The route \<open>/api/upload\<close>, from the result of \<open>parseFloat\<close> on the header
  \<open>x-upload-start\<close>, the data and the two readings of the clock. Of the reply the sizes,
  the times and the speed are kept.
\<close>

definition upload :: "jsnum \<Rightarrow> buffer option \<Rightarrow> buffer option \<Rightarrow> rat \<Rightarrow> rat \<Rightarrow> upload_reply outcome" where
  "upload x_upload_start file body receiveStartTime receiveEndTime =
     (let clientStart = js_or x_upload_start (Fin receiveStartTime) in
      case received file body of
        None \<Rightarrow> Rejected 400 [(''error'', ''No data received'')]
      | Some dataBuffer \<Rightarrow>
          (let dataSize = length dataBuffer;
               processing = js_sub (Fin receiveEndTime) (Fin receiveStartTime);
               total = js_sub (Fin receiveEndTime) clientStart;
               mbps = speedMbps dataSize total
           in Served \<lparr>size_received = dataSize, processingTime = processing, totalTime = total,
                       speed = mbps, speed_text = toFixed3 mbps\<rparr>))"

text \<open>The route \<open>/api/upload-multi\<close>: the speed is taken over \<open>totalDuration\<close>.\<close>

definition upload_multi :: "jsnum \<Rightarrow> buffer option \<Rightarrow> buffer option \<Rightarrow> rat \<Rightarrow> rat \<Rightarrow> upload_reply outcome" where
  "upload_multi x_upload_start file body receiveTime processTime =
     (let clientStart = js_or x_upload_start (Fin receiveTime) in
      case received file body of
        None \<Rightarrow> Rejected 400 [(''error'', ''No data received'')]
      | Some dataBuffer \<Rightarrow>
          (let dataSize = length dataBuffer;
               processingDuration = js_sub (Fin processTime) (Fin receiveTime);
               totalDuration = js_sub (Fin processTime) clientStart;
               mbps = speedMbps dataSize totalDuration
           in Served \<lparr>size_received = dataSize, processingTime = processingDuration,
                       totalTime = totalDuration, speed = mbps, speed_text = toFixed3 mbps\<rparr>))"

section \<open>Adaptive download\<close>

text \<open>
  The constants of one request to \<open>/api/download-adaptive\<close>, from the results of
  \<open>parseFloat\<close> and \<open>parseInt\<close> on the query and the reading of the clock.
\<close>

record adaptive_params =
  initialSize :: jsnum
  maxSize :: jsnum
  duration :: jsnum
  pattern :: string
  throttle :: jsnum
  startTime :: rat

definition adaptive_params_of ::
  "jsnum \<Rightarrow> jsnum \<Rightarrow> jsnum \<Rightarrow> string option \<Rightarrow> jsnum \<Rightarrow> rat \<Rightarrow> adaptive_params" where
  "adaptive_params_of initial_q max_q duration_q pattern_q throttle_q now =
     \<lparr>initialSize = Math_max (js_or initial_q (Fin 1)) (Fin (1/10)),
      maxSize = Math_min (js_or max_q (Fin 5)) (Fin 10),
      duration = Math_min (js_or duration_q (Fin 5)) (Fin 10),
      pattern = resolve_pattern pattern_q,
      throttle = Math_max (js_or throttle_q (Fin 1)) (Fin (1/10)),
      startTime = now\<rparr>"

text \<open>The values one call of \<open>sendData\<close> computes; \<open>elapsed\<close> is in seconds.\<close>

definition elapsed_at :: "adaptive_params \<Rightarrow> rat \<Rightarrow> jsnum" where
  "elapsed_at p now = js_div (js_sub (Fin now) (Fin (startTime p))) (Fin 1000)"

definition targetSize :: "adaptive_params \<Rightarrow> jsnum \<Rightarrow> jsnum" where
  "targetSize p elapsed =
     (let progress = js_div elapsed (duration p) in
      js_add (initialSize p)
        (js_mul (js_sub (maxSize p) (initialSize p)) (Math_min (js_mul progress (Fin 2)) (Fin 1))))"

definition currentSize_at :: "adaptive_params \<Rightarrow> jsnum \<Rightarrow> jsnum" where
  "currentSize_at p elapsed = Math_min (targetSize p elapsed) (maxSize p)"

definition adaptive_chunkSize :: "adaptive_params \<Rightarrow> jsnum \<Rightarrow> jsnum" where
  "adaptive_chunkSize p elapsed =
     Math_max (js_mul (js_mul (currentSize_at p elapsed) (Fin (3/100))) (throttle p)) (Fin (1/20))"

definition nextDelay :: "adaptive_params \<Rightarrow> jsnum \<Rightarrow> jsnum" where
  "nextDelay p elapsed =
     Math_min (Fin 300) (js_add (Fin 100) (js_div (js_mul elapsed (Fin 10)) (throttle p)))"

record adaptive_session = timed_session +
  currentSize :: jsnum

definition sendData :: "adaptive_params \<Rightarrow> rat \<Rightarrow> sink_reply \<Rightarrow> adaptive_session \<Rightarrow> adaptive_session" where
  "sendData p now reply s =
     (if isFinished s \<or> destroyed s then s\<lparr>pending := Idle\<rparr>
      else
        (let elapsed = elapsed_at p now in
         if js_ge elapsed (duration p) then cleanup (end_response (s\<lparr>pending := Idle\<rparr>))
         else
           (let s1 = s\<lparr>pending := Idle, currentSize := currentSize_at p elapsed\<rparr> in
            case generateTestData (adaptive_chunkSize p elapsed) (pattern p) (gen s1) of
              Inl err \<Rightarrow> cleanup (end_response (s1\<lparr>errors := errors s1 + 1\<rparr>))
            | Inr (chunkData, g) \<Rightarrow>
                (case reply of
                   Throws \<Rightarrow> cleanup (end_response (s1\<lparr>errors := errors s1 + 1, gen := g\<rparr>))
                 | Accepted \<Rightarrow>
                     s1\<lparr>pending := Timer (nextDelay p elapsed), gen := g,
                        trace := trace s1 @ [Write chunkData, SetTimeout (nextDelay p elapsed)]\<rparr>
                 | Backpressure \<Rightarrow>
                     s1\<lparr>pending := DrainTimer (nextDelay p elapsed), gen := g,
                        trace := trace s1 @ [Write chunkData]\<rparr>))))"

fun adaptive_event :: "adaptive_params \<Rightarrow> event \<Rightarrow> adaptive_session \<Rightarrow> adaptive_session" where
  "adaptive_event p (Fire now reply) s =
     (case pending s of Timer d \<Rightarrow> sendData p now reply s | _ \<Rightarrow> s)"
| "adaptive_event p (Drain now reply) s =
     (case pending s of
        DrainTimer d \<Rightarrow> s\<lparr>pending := Timer d, trace := trace s @ [SetTimeout d]\<rparr>
      | _ \<Rightarrow> s)"
| "adaptive_event p Destroy s = s\<lparr>destroyed := True\<rparr>"
| "adaptive_event p Close s = cleanup s"

definition initial_adaptive :: "adaptive_params \<Rightarrow> gen_state \<Rightarrow> adaptive_session" where
  "initial_adaptive p g =
     \<lparr>isFinished = False, destroyed = False, ended = False, errors = 0, pending = Idle,
      gen = g, trace = [], currentSize = initialSize p\<rparr>"

text \<open>The handler calls \<open>sendData\<close> once itself, at the reading \<open>now\<close> of the clock.\<close>

definition adaptive_run ::
  "adaptive_params \<Rightarrow> gen_state \<Rightarrow> rat \<Rightarrow> sink_reply \<Rightarrow> event list \<Rightarrow> adaptive_session" where
  "adaptive_run p g now reply evs =
     fold (adaptive_event p) evs (sendData p now reply (initial_adaptive p g))"

text \<open>The buffers a trace handed to the sink.\<close>

fun writes :: "action list \<Rightarrow> buffer list" where
  "writes [] = []"
| "writes (Write b # as) = b # writes as"
| "writes (a # as) = writes as"

text \<open>The delays of the timers a trace armed.\<close>

fun timeouts :: "action list \<Rightarrow> jsnum list" where
  "timeouts [] = []"
| "timeouts (SetTimeout d # as) = d # timeouts as"
| "timeouts (a # as) = timeouts as"

subsection \<open>The formulas as the specification words them\<close>

text \<open>
  The chunk size of a tick as a fraction of the target size itself, and the delay with
  the elapsed time in milliseconds.
\<close>

definition spec_chunkSize :: "rat \<Rightarrow> rat \<Rightarrow> rat \<Rightarrow> rat \<Rightarrow> rat \<Rightarrow> rat" where
  "spec_chunkSize i m t d r = max ((i + (m - i) * min ((t / d) * 2) 1) * (3/100) * r) (1/20)"

definition spec_nextDelay :: "rat \<Rightarrow> rat \<Rightarrow> rat" where
  "spec_nextDelay elapsed_ms r = min 300 (100 + elapsed_ms * 10 / r)"

section \<open>Invariants of the sessions\<close>

text \<open>The bytes a list of logged chunks holds.\<close>

definition total :: "(nat \<times> buffer) list \<Rightarrow> nat" where
  "total cs = sum_list (map (\<lambda>pc. length (snd pc)) cs)"

text \<open>
  What holds of a download session at every moment: the cursor is the number of bytes
  written and never passes the end, the chunks written are the buffer up to the cursor,
  cut without gap or overlap, and the response is ended only at the end of the buffer.
\<close>

definition download_inv :: "buffer \<Rightarrow> download_session \<Rightarrow> bool" where
  "download_inv testData s =
     (offset s \<le> length testData \<and> total (chunks s) = offset s \<and>
      contiguous 0 (chunks s) \<and>
      concat (map snd (chunks s)) = take (offset s) testData \<and>
      list_all (\<lambda>pc. length (snd pc) \<le> chunkSize) (chunks s) \<and>
      (ended s \<longrightarrow> offset s = length testData \<and> isFinished s \<and> errors s = 0) \<and>
      (errors s = 0 \<or> isFinished s))"

text \<open>
  An event of an adaptive session is late when the callback it runs reads the clock at
  or after the duration bound.
\<close>

fun late :: "adaptive_params \<Rightarrow> event \<Rightarrow> bool" where
  "late p (Fire now reply) = js_ge (elapsed_at p now) (duration p)"
| "late p ev = True"

text \<open>
  The trace of a warmup that has written the buffers \<open>bs\<close> of its first phases and armed
  the timer after each, and what makes the buffers the payloads of these phases.
\<close>

definition scheduled :: "buffer list \<Rightarrow> action list" where
  "scheduled bs =
     concat (map (\<lambda>j. [Write (bs ! j), SetTimeout (Fin (delay (phases ! j)))]) [0..<length bs])"

definition payloads_ok :: "buffer list \<Rightarrow> bool" where
  "payloads_ok bs =
     (length bs \<le> length phases \<and>
      list_all (\<lambda>j. length (bs ! j) = byte_count (sizeMB (phases ! j))) [0..<length bs])"

text \<open>
  The states a warmup session can be in: failed; stopped short, with nothing registered;
  ended after all four phases; or under way, with a timer armed after the phase last
  written, the drain awaited before that timer, or the last timer armed.
\<close>

definition warmup_inv :: "warmup_session \<Rightarrow> bool" where
  "warmup_inv s =
     (0 < errors s \<or>
      (\<not> ended s \<and> pending s = Idle) \<or>
      (ended s \<and> pending s = Idle \<and>
         (\<exists>bs. payloads_ok bs \<and> length bs = length phases \<and> trace s = scheduled bs @ [End])) \<or>
      (\<not> ended s \<and> cache_ok (gen s) \<and>
         (\<exists>bs. payloads_ok bs \<and> length bs = currentPhase s \<and> 0 < currentPhase s \<and>
            (if currentPhase s < length phases
             then (pending s = Timer (Fin (delay (phases ! (currentPhase s - 1)))) \<and>
                   trace s = scheduled bs) \<or>
                  (pending s = DrainTimer (Fin (delay (phases ! (currentPhase s - 1)))) \<and>
                   trace s @ [SetTimeout (Fin (delay (phases ! (currentPhase s - 1))))] = scheduled bs)
             else pending s = EndTimer (Fin (delay (phases ! (currentPhase s - 1)))) \<and>
                  trace s = scheduled bs))))"

text \<open>
  A text with three decimal places: an optional minus sign, digits, a point and exactly
  three digits.
\<close>

definition is_digit :: "char \<Rightarrow> bool" where
  "is_digit c = (c \<in> set ''0123456789'')"

definition three_decimals :: "string \<Rightarrow> bool" where
  "three_decimals txt =
     (let body = (if txt \<noteq> [] \<and> hd txt = CHR ''-'' then tl txt else txt);
          k = length body
      in 4 < k \<and> body ! (k - 4) = CHR ''.'' \<and>
         list_all is_digit (take (k - 4) body) \<and> list_all is_digit (drop (k - 3) body))"

section \<open>The generator: lengths, contents and the cache\<close>

lemma fill_incompressible_length: "length (fill_incompressible n i buf) = length buf"
proof (induction n i buf rule: fill_incompressible.induct)
  case (1 n i buf)
  show ?case
  proof (cases "of_nat i < n")
    case True
    then show ?thesis using "1" by (simp add: fill_incompressible.simps [of n i buf])
  next
    case False
    then show ?thesis by (simp add: fill_incompressible.simps [of n i buf])
  qed
qed

lemma fill_incompressible_nth:
  "j < length buf \<Longrightarrow>
   fill_incompressible n i buf ! j =
     (if i \<le> j \<and> of_nat j < n then of_nat ((j * 137 + 19) mod 256) else buf ! j)"
proof (induction n i buf rule: fill_incompressible.induct)
  case (1 n i buf)
  show ?case
  proof (cases "of_nat i < n")
    case True
    have "fill_incompressible n i buf ! j =
        fill_incompressible n (Suc i) (buf[i := of_nat ((i * 137 + 19) mod 256)]) ! j"
      using True by (simp add: fill_incompressible.simps [of n i buf])
    also have "\<dots> = (if Suc i \<le> j \<and> of_nat j < n then of_nat ((j * 137 + 19) mod 256)
        else buf[i := of_nat ((i * 137 + 19) mod 256)] ! j)"
      using "1.IH" [OF True] "1.prems" by simp
    also have "\<dots> = (if i \<le> j \<and> of_nat j < n then of_nat ((j * 137 + 19) mod 256) else buf ! j)"
      using True "1.prems" by (cases "i = j") auto
    finally show ?thesis .
  next
    case False
    have same: "fill_incompressible n i buf = buf"
      using False by (simp add: fill_incompressible.simps [of n i buf])
    have "\<not> of_nat j < n" if "i \<le> j"
    proof -
      from that have "(of_nat i :: rat) \<le> of_nat j" by simp
      with False show ?thesis by linarith
    qed
    then show ?thesis unfolding same by auto
  qed
qed

lemma draw_length: "length (draw n e) = n"
  by (simp add: draw_def)

lemma kMax_le: "kMaxPossibleLength \<le> kMaxLength"
  by (simp add: kMaxPossibleLength_def kMaxLength_def)

lemma incompressible_content:
  assumes "0 \<le> n" and "i < nat \<lfloor>n\<rfloor>"
  shows "fill_incompressible n 0 (replicate (nat \<lfloor>n\<rfloor>) 0) ! i = of_nat ((i * 137 + 19) mod 256)"
proof -
  have "int i < \<lfloor>n\<rfloor>" using assms by linarith
  then have "of_int (int i) < n" by (simp only: less_floor_iff)
  then have "of_nat i < n" by simp
  then show ?thesis
    using assms by (simp add: fill_incompressible_nth)
qed

lemma make_buffer_ok:
  assumes "0 \<le> n" and "n \<le> kMaxPossibleLength"
  shows "\<exists>buf e'. make_buffer (Fin n) pat e = Inr (buf, e') \<and>
           length buf = nat \<lfloor>n\<rfloor> \<and> pattern_ok pat buf"
proof -
  have le: "n \<le> kMaxLength" using assms kMax_le by linarith
  consider (r) "pat = ''random''" | (c) "pat = ''compressible''"
    | (i) "pat = ''incompressible''"
    | (d) "pat \<noteq> ''random''" "pat \<noteq> ''compressible''" "pat \<noteq> ''incompressible''"
    by blast
  then show ?thesis
  proof cases
    case r
    then show ?thesis using assms by (simp add: make_buffer_def pattern_ok_def draw_length)
  next
    case c
    then show ?thesis using assms le by (simp add: make_buffer_def pattern_ok_def)
  next
    case i
    then show ?thesis
      using assms le
      by (simp add: make_buffer_def pattern_ok_def fill_incompressible_length incompressible_content)
  next
    case d
    then show ?thesis using assms by (simp add: make_buffer_def pattern_ok_def draw_length)
  qed
qed

lemma generateTestData_ok:
  assumes ok: "cache_ok st" and nonneg: "0 \<le> s" and le: "s * 1024 * 1024 \<le> kMaxPossibleLength"
  shows "\<exists>buf st'. generateTestData (Fin s) pat st = Inr (buf, st') \<and>
           length buf = byte_count s \<and> pattern_ok pat buf \<and> cache_ok st'"
proof (cases "testDataCache st (Fin s, pat)")
  case (Some cached)
  then have "length cached = byte_count s \<and> pattern_ok pat cached"
    using ok unfolding cache_ok_def by fastforce
  then show ?thesis using Some ok by (simp add: generateTestData_def)
next
  case None
  have "0 \<le> s * 1024 * 1024" using nonneg by simp
  from make_buffer_ok [OF this le, of pat "entropy st"]
  obtain buf e' where mk: "make_buffer (Fin (s * 1024 * 1024)) pat (entropy st) = Inr (buf, e')"
    and len: "length buf = nat \<lfloor>s * 1024 * 1024\<rfloor>" and pat: "pattern_ok pat buf"
    by blast
  let ?st' = "st\<lparr>testDataCache := (testDataCache st)((Fin s, pat) \<mapsto> buf), entropy := e'\<rparr>"
  have gen: "generateTestData (Fin s) pat st = Inr (buf, ?st')"
    using None mk by (simp add: generateTestData_def)
  have "cache_ok ?st'"
    unfolding cache_ok_def
  proof (intro allI impI)
    fix sz p b
    assume h: "testDataCache ?st' (sz, p) = Some b"
    show "\<exists>s. sz = Fin s \<and> 0 \<le> s \<and> length b = byte_count s \<and> pattern_ok p b"
    proof (cases "(sz, p) = (Fin s, pat)")
      case True
      then show ?thesis using h len pat nonneg by (simp add: byte_count_def)
    next
      case False
      then have "testDataCache st (sz, p) = Some b" using h by (simp split: if_splits)
      then show ?thesis using ok unfolding cache_ok_def by blast
    qed
  qed
  then show ?thesis using gen len pat by (auto simp: byte_count_def)
qed

lemma cache_ok_empty: "cache_ok (empty_state e)"
  by (simp add: cache_ok_def empty_state_def)

lemma pregenerate_ok:
  assumes "cache_ok st" "0 \<le> s" "s * 1024 * 1024 \<le> kMaxPossibleLength"
  shows "cache_ok (pregenerate s st)"
proof -
  from generateTestData_ok [OF assms, of "''random''"]
  obtain b st1 where g1: "generateTestData (Fin s) ''random'' st = Inr (b, st1)" and ok1: "cache_ok st1"
    by blast
  from generateTestData_ok [OF ok1 assms(2,3), of "''compressible''"]
  obtain b' st2 where g2: "generateTestData (Fin s) ''compressible'' st1 = Inr (b', st2)" and ok2: "cache_ok st2"
    by blast
  show ?thesis using g1 g2 ok2 by (simp add: pregenerate_def)
qed

lemma fold_pregenerate_ok:
  "cache_ok st \<Longrightarrow> \<forall>s \<in> set xs. 0 \<le> s \<and> s * 1024 * 1024 \<le> kMaxPossibleLength \<Longrightarrow>
   cache_ok (fold pregenerate xs st)"
  by (induction xs arbitrary: st) (simp_all add: pregenerate_ok)

lemma cache_ok_startup: "cache_ok (startup_state e)"
  unfolding startup_state_def
  by (rule fold_pregenerate_ok [OF cache_ok_empty]) (simp add: commonSizes_def kMaxPossibleLength_def)

text \<open>
  Claim C1, as amended. For every size that is not negative and within the limit of the
  runtime, and every pattern, the generator returns a buffer of exactly
  \<open>\<lfloor>sizeInMB * 1024 * 1024\<rfloor>\<close> bytes: the byte count is truncated, not rounded. The
  cache keeps its invariant, so the same holds for every later call.
\<close>

theorem generateTestData_length:
  assumes "cache_ok st" and "0 \<le> s" and "s * 1024 * 1024 \<le> kMaxPossibleLength"
  shows "\<exists>buf st'. generateTestData (Fin s) pat st = Inr (buf, st') \<and>
           int (length buf) = \<lfloor>s * 1024 * 1024\<rfloor> \<and> cache_ok st'"
proof -
  from generateTestData_ok [OF assms, of pat]
  obtain buf st' where g: "generateTestData (Fin s) pat st = Inr (buf, st')"
    and len: "length buf = byte_count s" and ok: "cache_ok st'"
    by blast
  have "0 \<le> \<lfloor>s * 1024 * 1024\<rfloor>" using assms(2) by simp
  then have "int (length buf) = \<lfloor>s * 1024 * 1024\<rfloor>"
    using len by (simp add: byte_count_def)
  then show ?thesis using g ok by blast
qed

text \<open>The theorem at 0.1 MB, pattern incompressible, after the start of the process.\<close>

theorem generateTestData_length_witness:
  "cache_ok (startup_state (\<lambda>i. 0)) \<and> (0::rat) \<le> 1/10 \<and> (1/10) * 1024 * 1024 \<le> kMaxPossibleLength \<and>
   (\<exists>buf st'. generateTestData (Fin (1/10)) ''incompressible'' (startup_state (\<lambda>i. 0)) = Inr (buf, st') \<and>
      int (length buf) = 104857 \<and> cache_ok st')"
proof -
  have a: "cache_ok (startup_state (\<lambda>i. 0))" by (rule cache_ok_startup)
  have b: "(0::rat) \<le> 1/10" by simp
  have c: "(1/10) * 1024 * 1024 \<le> kMaxPossibleLength" by (simp add: kMaxPossibleLength_def)
  have f: "\<lfloor>(1/10::rat) * 1024 * 1024\<rfloor> = 104857" by (simp add: floor_eq_iff)
  show ?thesis
    using a b c generateTestData_length [OF a b c, of "''incompressible''"] unfolding f by simp
qed

text \<open>
  Claim C1 as stated fails: at 0.1 MB the generator returns 104857 bytes, and
  \<open>round(0.1 * 1024 * 1024)\<close> is 104858.
\<close>

theorem generateTestData_round_counterexample:
  "(case generateTestData (Fin (1/10)) ''compressible'' (empty_state (\<lambda>i. 0)) of
      Inl err \<Rightarrow> None | Inr (buf, st') \<Rightarrow> Some (int (length buf))) = Some 104857
   \<and> round ((1/10 :: rat) * 1024 * 1024) = 104858"
  by (simp add: generateTestData_def empty_state_def make_buffer_def kMaxLength_def round_def floor_eq_iff)

section \<open>Fixed-size download\<close>

lemma slice_length:
  "a \<le> length buf \<Longrightarrow> length (Buffer_slice buf a (min (a + n) (length buf))) = min n (length buf - a)"
  by (auto simp: Buffer_slice_def min_def)

lemma take_slice:
  assumes "a \<le> length buf"
  shows "take a buf @ Buffer_slice buf a (min (a + n) (length buf)) = take (a + min n (length buf - a)) buf"
proof -
  have "min (min (a + n) (length buf)) (length buf) - a = min n (length buf - a)"
    using assms by (auto simp: min_def)
  then show ?thesis by (simp add: Buffer_slice_def take_add)
qed

lemma total_append: "total (cs @ [(pos, c)]) = total cs + length c"
  by (simp add: total_def)

lemma contiguous_append:
  "contiguous a (cs @ [(pos, c)]) = (contiguous a cs \<and> pos = a + total cs \<and> c \<noteq> [])"
  by (induction cs arbitrary: a) (auto simp: total_def)

lemma contiguous_lower: "contiguous a cs \<Longrightarrow> \<forall>p \<in> set (map fst cs). a \<le> p"
proof (induction cs arbitrary: a)
  case Nil
  then show ?case by simp
next
  case (Cons pc cs)
  obtain pos c where pc: "pc = (pos, c)" by (cases pc)
  from Cons.prems pc have "pos = a" and tl: "contiguous (a + length c) cs" by simp_all
  from Cons.IH [OF tl] have "\<forall>p \<in> set (map fst cs). a \<le> p" by fastforce
  then show ?case using pc \<open>pos = a\<close> by simp
qed

lemma contiguous_increasing: "contiguous a cs \<Longrightarrow> sorted_wrt (<) (map fst cs)"
proof (induction cs arbitrary: a)
  case Nil
  then show ?case by simp
next
  case (Cons pc cs)
  obtain pos c where pc: "pc = (pos, c)" by (cases pc)
  from Cons.prems pc have pos: "pos = a" and ne: "c \<noteq> []" and tl: "contiguous (a + length c) cs"
    by simp_all
  have "0 < length c" using ne by simp
  have "\<forall>p \<in> set (map fst cs). pos < p"
  proof
    fix p
    assume "p \<in> set (map fst cs)"
    with contiguous_lower [OF tl] have "a + length c \<le> p" by blast
    with pos \<open>0 < length c\<close> show "pos < p" by linarith
  qed
  then show ?case using Cons.IH [OF tl] pc by simp
qed

lemma download_inv_initial: "download_inv d initial_download"
  by (simp add: download_inv_def initial_download_def total_def)

lemma sendChunk_inv:
  assumes "download_inv d s"
  shows "download_inv d (sendChunk d reply s)"
proof (cases "isFinished s \<or> destroyed s")
  case True
  then show ?thesis using assms by (auto simp: sendChunk_def download_inv_def)
next
  case active: False
  show ?thesis
  proof (cases "length d \<le> offset s")
    case True
    then show ?thesis
      using assms active by (auto simp: sendChunk_def download_inv_def cleanup_def res_end_def)
  next
    case False
    let ?c = "Buffer_slice d (offset s) (min (offset s + chunkSize) (length d))"
    have le: "offset s \<le> length d" using False by simp
    have len: "length ?c = min chunkSize (length d - offset s)"
      by (rule slice_length [OF le])
    have pos: "0 < length ?c" using len False by (simp add: chunkSize_def)
    have ne: "?c \<noteq> []" using pos by auto
    have cat: "take (offset s) d @ ?c = take (offset s + length ?c) d"
      unfolding len by (rule take_slice [OF le])
    have bound: "offset s + length ?c \<le> length d" using len le by simp
    have small: "length ?c \<le> chunkSize" using len by simp
    show ?thesis
    proof (cases reply)
      case Accepted
      then show ?thesis
        using assms active False ne cat bound small
        by (simp add: sendChunk_def download_inv_def Let_def total_append contiguous_append)
    next
      case Backpressure
      then show ?thesis
        using assms active False ne cat bound small
        by (simp add: sendChunk_def download_inv_def Let_def total_append contiguous_append)
    next
      case Throws
      then show ?thesis
        using assms active False
        by (simp add: sendChunk_def download_inv_def Let_def cleanup_def)
    qed
  qed
qed

lemma download_event_inv: "download_inv d s \<Longrightarrow> download_inv d (download_event d ev s)"
  by (cases ev) (auto simp: sendChunk_inv, auto simp: download_inv_def cleanup_def)

lemma fold_download_inv: "download_inv d s \<Longrightarrow> download_inv d (fold (download_event d) evs s)"
  by (induction evs arbitrary: s) (simp_all add: download_event_inv)

lemma download_run_inv: "download_inv d (download_run d reply evs)"
  unfolding download_run_def
  by (rule fold_download_inv [OF sendChunk_inv [OF download_inv_initial]])

lemma sendChunk_offset_mono: "offset s \<le> offset (sendChunk d reply s)"
  by (cases reply) (simp_all add: sendChunk_def Let_def cleanup_def res_end_def)

lemma download_event_offset_mono: "offset s \<le> offset (download_event d ev s)"
  by (cases ev) (simp_all add: sendChunk_offset_mono cleanup_def)

lemma download_run_snoc:
  "download_run d reply (evs @ [ev]) = download_event d ev (download_run d reply evs)"
  by (simp add: download_run_def)

lemma download_run_offset_mono:
  "offset (download_run d reply (take k evs)) \<le> offset (download_run d reply (take (Suc k) evs))"
proof (cases "k < length evs")
  case True
  then have "take (Suc k) evs = take k evs @ [evs ! k]" by (simp add: take_Suc_conv_app_nth)
  then show ?thesis by (simp add: download_run_snoc download_event_offset_mono)
next
  case False
  then show ?thesis by simp
qed

lemma sendChunk_ended: "ended s \<Longrightarrow> ended (sendChunk d reply s)"
  by (cases reply) (simp_all add: sendChunk_def Let_def cleanup_def res_end_def)

lemma download_event_ended: "ended s \<Longrightarrow> ended (download_event d ev s)"
  by (cases ev) (simp_all add: sendChunk_ended cleanup_def)

lemma fold_download_ended: "ended s \<Longrightarrow> ended (fold (download_event d) evs s)"
  by (induction evs arbitrary: s) (simp_all add: download_event_ended)

text \<open>
  A sink that accepts every write lets the download end: \<open>k\<close> more callbacks are enough
  when \<open>k\<close> chunks cover what is left.
\<close>

lemma fires_complete:
  assumes "download_inv d s" and "\<not> isFinished s" and "\<not> destroyed s"
    and "pending s = Immediate" and "length d \<le> offset s + k * chunkSize"
  shows "ended (fold (download_event d) (replicate (Suc k) (Fire now Accepted)) s)"
  using assms
proof (induction k arbitrary: s)
  case 0
  then show ?case by (simp add: sendChunk_def cleanup_def res_end_def)
next
  case (Suc k)
  let ?s' = "sendChunk d Accepted s"
  have step: "fold (download_event d) (replicate (Suc (Suc k)) (Fire now Accepted)) s =
      fold (download_event d) (replicate (Suc k) (Fire now Accepted)) ?s'"
    using Suc.prems(4) by simp
  show ?case
  proof (cases "length d \<le> offset s")
    case True
    then have "ended ?s'"
      using Suc.prems by (simp add: sendChunk_def cleanup_def res_end_def)
    then show ?thesis unfolding step by (rule fold_download_ended)
  next
    case False
    have le: "offset s \<le> length d" using False by simp
    have off: "offset ?s' = offset s + min chunkSize (length d - offset s)"
      using Suc.prems False slice_length [OF le, of chunkSize]
      by (simp add: sendChunk_def Let_def)
    have "length d \<le> offset ?s' + k * chunkSize"
      using Suc.prems(5) le unfolding off by (auto simp: min_def)
    moreover have "download_inv d ?s'" by (rule sendChunk_inv [OF Suc.prems(1)])
    moreover have "\<not> isFinished ?s'" "\<not> destroyed ?s'" "pending ?s' = Immediate"
      using Suc.prems False by (simp_all add: sendChunk_def Let_def)
    ultimately show ?thesis unfolding step by (intro Suc.IH) simp_all
  qed
qed

lemma download_completes:
  assumes "length d \<le> k * chunkSize"
  shows "ended (download_run d Accepted (replicate k (Fire now Accepted)))"
proof (cases "d = []")
  case True
  then have "ended (sendChunk d Accepted initial_download)"
    by (simp add: sendChunk_def initial_download_def cleanup_def res_end_def)
  then show ?thesis unfolding download_run_def by (rule fold_download_ended)
next
  case False
  then obtain j where k: "k = Suc j" using assms by (cases k) simp_all
  let ?s = "sendChunk d Accepted initial_download"
  have inv: "download_inv d ?s" by (rule sendChunk_inv [OF download_inv_initial])
  have off: "offset ?s = min chunkSize (length d)"
    using False slice_length [of 0 d chunkSize]
    by (simp add: sendChunk_def Let_def initial_download_def)
  have act: "\<not> isFinished ?s" "\<not> destroyed ?s" "pending ?s = Immediate"
    using False by (simp_all add: sendChunk_def Let_def initial_download_def)
  have "length d \<le> offset ?s + j * chunkSize"
    using assms k unfolding off by (auto simp: min_def)
  from fires_complete [OF inv act this] show ?thesis
    unfolding download_run_def k .
qed

text \<open>
  Claim C3. In a download that ran to its normal end, the chunks written add up to the
  \<open>N\<close> bytes of the buffer and are the buffer when put together; each chunk was cut at
  the end of the one before, the first at 0, none is empty, so the offsets increase
  strictly without gap or overlap; no chunk is longer than 64 KiB; and along the run the
  cursor never decreases and never passes \<open>N\<close>.
\<close>

theorem download_chunks_partition:
  assumes "ended (download_run d reply evs)"
  shows "total (chunks (download_run d reply evs)) = length d \<and>
         concat (map snd (chunks (download_run d reply evs))) = d \<and>
         contiguous 0 (chunks (download_run d reply evs)) \<and>
         sorted_wrt (<) (map fst (chunks (download_run d reply evs))) \<and>
         list_all (\<lambda>pc. length (snd pc) \<le> 64 * 1024) (chunks (download_run d reply evs)) \<and>
         (\<forall>k. offset (download_run d reply (take k evs))
                 \<le> offset (download_run d reply (take (Suc k) evs)) \<and>
              offset (download_run d reply (take k evs)) \<le> length d)"
proof -
  let ?s = "download_run d reply evs"
  have inv: "download_inv d ?s" by (rule download_run_inv)
  have full: "offset ?s = length d" using inv assms by (simp add: download_inv_def)
  have "total (chunks ?s) = length d" using inv full by (simp add: download_inv_def)
  moreover have "concat (map snd (chunks ?s)) = d" using inv full by (simp add: download_inv_def)
  moreover have cont: "contiguous 0 (chunks ?s)" using inv by (simp add: download_inv_def)
  moreover have "sorted_wrt (<) (map fst (chunks ?s))" by (rule contiguous_increasing [OF cont])
  moreover have "list_all (\<lambda>pc. length (snd pc) \<le> 64 * 1024) (chunks ?s)"
    using inv by (simp add: download_inv_def chunkSize_def)
  moreover have "offset (download_run d reply (take k evs)) \<le> length d" for k
    using download_run_inv [of d reply "take k evs"] by (simp add: download_inv_def)
  ultimately show ?thesis using download_run_offset_mono by blast
qed

text \<open>
  The theorem on a buffer of 100000 bytes whose first write meets backpressure: the
  chunk of 65536 bytes, after the drain the chunk of the other 34464, then the callback
  that ends the response.
\<close>

theorem download_chunks_partition_witness:
  "ended (download_run (replicate 100000 0x41) Backpressure [Drain 0 Accepted, Fire 0 Accepted]) \<and>
   chunks (download_run (replicate 100000 0x41) Backpressure [Drain 0 Accepted, Fire 0 Accepted]) =
     [(0, replicate 65536 0x41), (65536, replicate 34464 0x41)] \<and>
   total (chunks (download_run (replicate 100000 0x41) Backpressure
     [Drain 0 Accepted, Fire 0 Accepted])) = 100000 \<and>
   sorted_wrt (<) (map fst (chunks (download_run (replicate 100000 0x41) Backpressure
     [Drain 0 Accepted, Fire 0 Accepted])))"
proof -
  let ?run = "download_run (replicate 100000 0x41) Backpressure [Drain 0 Accepted, Fire 0 Accepted]"
  have e: "ended ?run"
    by (simp add: download_run_def sendChunk_def initial_download_def Buffer_slice_def
        chunkSize_def cleanup_def res_end_def)
  have c: "chunks ?run = [(0, replicate 65536 0x41), (65536, replicate 34464 0x41)]"
    by (simp add: download_run_def sendChunk_def initial_download_def Buffer_slice_def
        chunkSize_def cleanup_def res_end_def)
  show ?thesis
    using e c download_chunks_partition [OF e] by simp
qed

subsection \<open>The route of the fixed-size download\<close>

lemma download_start_invalid:
  assumes "\<not> (\<exists>x. sz = Fin x \<and> 1/10 \<le> x \<and> x \<le> 10)"
  shows "download_start sz q st =
           (Rejected 400 [(''error'', ''Invalid size. Must be between 0.1 and 10 MB'')], st)"
proof (cases sz)
  case (Fin x)
  with assms have "x < 1/10 \<or> 10 < x" by auto
  then show ?thesis using Fin by (auto simp: download_start_def isNaN_def js_gt_def Let_def)
qed (simp_all add: download_start_def isNaN_def js_gt_def Let_def)

lemma download_start_valid:
  assumes ok: "cache_ok st" and lo: "1/10 \<le> x" and hi: "x \<le> 10"
  shows "\<exists>testData st'. download_start (Fin x) q st = (Served testData, st') \<and>
           length testData = byte_count x \<and> pattern_ok (resolve_pattern q) testData \<and> cache_ok st'"
proof -
  have nonneg: "0 \<le> x" using lo by simp
  have "x * 1024 * 1024 \<le> 10 * 1024 * 1024" using hi by simp
  then have lim: "x * 1024 * 1024 \<le> kMaxPossibleLength" by (simp add: kMaxPossibleLength_def)
  from generateTestData_ok [OF ok nonneg lim, of "resolve_pattern q"]
  obtain buf st' where "generateTestData (Fin x) (resolve_pattern q) st = Inr (buf, st')"
    and "length buf = byte_count x" and "pattern_ok (resolve_pattern q) buf" and "cache_ok st'"
    by blast
  then show ?thesis
    using lo hi by (simp add: download_start_def isNaN_def js_gt_def Let_def)
qed

text \<open>
  Claim C4. A size that is not a finite number of the range from 0.1 to 10 (NaN, an
  infinity, or a number below 0.1 or above 10) is answered with status 400 and the body
  \<open>{error: ...}\<close>; nothing is streamed, whatever the sink and the events do, and the
  generator's state is left as it was.
\<close>

theorem download_rejects_invalid_size:
  assumes "\<not> (\<exists>x. sz = Fin x \<and> 1/10 \<le> x \<and> x \<le> 10)"
  shows "download sz q st reply evs =
           (Rejected 400 [(''error'', ''Invalid size. Must be between 0.1 and 10 MB'')], st) \<and>
         streamed (fst (download sz q st reply evs)) = []"
  using download_start_invalid [OF assms] by (simp add: download_def streamed_def)

text \<open>The theorem at the sizes -1 and 20 and at a size that is not a number.\<close>

theorem download_rejects_invalid_size_witness:
  "download (Fin (- 1)) None (empty_state (\<lambda>i. 0)) Accepted [Fire 0 Accepted] =
     (Rejected 400 [(''error'', ''Invalid size. Must be between 0.1 and 10 MB'')], empty_state (\<lambda>i. 0)) \<and>
   streamed (fst (download (Fin 20) (Some ''compressible'') (empty_state (\<lambda>i. 0)) Accepted [])) = [] \<and>
   fst (download NaN None (empty_state (\<lambda>i. 0)) Accepted []) =
     Rejected 400 [(''error'', ''Invalid size. Must be between 0.1 and 10 MB'')]"
proof -
  have a: "\<not> (\<exists>x. Fin (- 1) = Fin x \<and> 1/10 \<le> x \<and> x \<le> 10)" by simp
  have b: "\<not> (\<exists>x. Fin 20 = Fin x \<and> 1/10 \<le> x \<and> x \<le> 10)" by simp
  have c: "\<not> (\<exists>x. NaN = Fin x \<and> 1/10 \<le> x \<and> x \<le> 10)" by simp
  show ?thesis
    using download_rejects_invalid_size [OF a, of None "empty_state (\<lambda>i. 0)" Accepted "[Fire 0 Accepted]"]
      download_rejects_invalid_size [OF b, of "Some ''compressible''" "empty_state (\<lambda>i. 0)" Accepted "[]"]
      download_rejects_invalid_size [OF c, of None "empty_state (\<lambda>i. 0)" Accepted "[]"]
    by (simp add: streamed_def)
qed

text \<open>A size of the range is never rejected, so the check is exactly the range.\<close>

lemma download_serves_valid_size:
  assumes "cache_ok st" and "1/10 \<le> x" and "x \<le> 10"
  shows "\<exists>s st'. download (Fin x) q st reply evs = (Served (byte_count x, s), st')"
proof -
  from download_start_valid [OF assms, of q]
  obtain testData st' where "download_start (Fin x) q st = (Served testData, st')"
    and "length testData = byte_count x" by blast
  then show ?thesis by (simp add: download_def)
qed

lemma byte_count_tenth: "byte_count (1/10) = 104857"
proof -
  have "\<lfloor>(1/10::rat) * 1024 * 1024\<rfloor> = 104857" by (simp add: floor_eq_iff)
  then show ?thesis by (simp add: byte_count_def)
qed

lemma compressible_buffer:
  assumes "pattern_ok ''compressible'' buf"
  shows "buf = replicate (length buf) 0x41"
  using assms by (simp add: pattern_ok_def list_eq_iff_nth_eq)

lemma download_start_tenth:
  assumes "cache_ok st"
  shows "\<exists>st'. download_start (Fin (1/10)) (Some ''compressible'') st =
           (Served (replicate 104857 0x41), st')"
proof -
  have lo: "(1/10::rat) \<le> 1/10" and hi: "(1/10::rat) \<le> 10" by simp_all
  from download_start_valid [OF assms lo hi, of "Some ''compressible''"]
  obtain testData st' where st: "download_start (Fin (1/10)) (Some ''compressible'') st = (Served testData, st')"
    and len: "length testData = byte_count (1/10)"
    and pat: "pattern_ok (resolve_pattern (Some ''compressible'')) testData"
    by blast
  have "pattern_ok ''compressible'' testData" using pat by (simp add: resolve_pattern_def)
  from compressible_buffer [OF this] have "testData = replicate 104857 0x41"
    using len byte_count_tenth by simp
  with st show ?thesis by blast
qed

lemma streamed_prefix:
  "streamed (Served (n, download_run d reply evs)) = take (offset (download_run d reply evs)) d"
  using download_run_inv [of d reply evs] by (simp add: streamed_def download_inv_def)

text \<open>
  Claim C2. The download of 0.1 MB in the pattern compressible has a payload of exactly
  104857 bytes, each of them 0x41: that is the length announced, what has been streamed
  at any moment is a run of bytes 0x41, and a download that ran to its normal end has
  streamed all 104857 of them.
\<close>

theorem download_tenth_compressible:
  assumes "cache_ok st"
  shows "\<exists>s st'. download (Fin (1/10)) (Some ''compressible'') st reply evs = (Served (104857, s), st') \<and>
           (\<exists>k. k \<le> 104857 \<and> streamed (Served (104857, s)) = replicate k 0x41) \<and>
           (ended s \<longrightarrow> streamed (Served (104857, s)) = replicate 104857 0x41)"
proof -
  let ?d = "replicate 104857 (0x41 :: byte)"
  let ?s = "download_run ?d reply evs"
  from download_start_tenth [OF assms]
  obtain st' where st: "download_start (Fin (1/10)) (Some ''compressible'') st = (Served ?d, st')"
    by blast
  have dl: "download (Fin (1/10)) (Some ''compressible'') st reply evs = (Served (104857, ?s), st')"
    using st by (simp add: download_def)
  have pre: "streamed (Served (104857, ?s)) = replicate (min (offset ?s) 104857) 0x41"
    by (simp add: streamed_prefix)
  have full: "streamed (Served (104857, ?s)) = replicate 104857 0x41" if "ended ?s"
  proof -
    have "offset ?s = 104857"
      using that download_run_inv [of ?d reply evs] by (simp add: download_inv_def)
    then show ?thesis using pre by simp
  qed
  have "\<exists>k. k \<le> 104857 \<and> streamed (Served (104857, ?s)) = replicate k 0x41"
    using pre by (intro exI [of _ "min (offset ?s) 104857"]) simp
  then show ?thesis using dl full by blast
qed

text \<open>
  The theorem after the start of the process, with a sink that accepts every write: two
  callbacks end the download, and all 104857 bytes have been streamed.
\<close>

theorem download_tenth_compressible_witness:
  "cache_ok (startup_state (\<lambda>i. 0)) \<and>
   (\<exists>s st'. download (Fin (1/10)) (Some ''compressible'') (startup_state (\<lambda>i. 0)) Accepted
               [Fire 0 Accepted, Fire 0 Accepted] = (Served (104857, s), st') \<and>
      ended s \<and> streamed (Served (104857, s)) = replicate 104857 0x41)"
proof -
  let ?st = "startup_state (\<lambda>i. 0)"
  let ?evs = "[Fire 0 Accepted, Fire 0 Accepted]"
  have ok: "cache_ok ?st" by (rule cache_ok_startup)
  from download_tenth_compressible [OF ok, of Accepted ?evs]
  obtain s st' where dl: "download (Fin (1/10)) (Some ''compressible'') ?st Accepted ?evs = (Served (104857, s), st')"
    and full: "ended s \<longrightarrow> streamed (Served (104857, s)) = replicate 104857 0x41"
    by blast
  from download_start_tenth [OF ok]
  obtain st'' where "download_start (Fin (1/10)) (Some ''compressible'') ?st = (Served (replicate 104857 0x41), st'')"
    by blast
  with dl have s: "s = download_run (replicate 104857 0x41) Accepted ?evs"
    by (simp add: download_def)
  have "length (replicate 104857 (0x41 :: byte)) \<le> 2 * chunkSize" by (simp add: chunkSize_def)
  from download_completes [OF this, of 0] have "ended s"
    unfolding s by (simp add: numeral_2_eq_2)
  with ok dl full show ?thesis by blast
qed

section \<open>Adaptive download\<close>

lemma js_sub_Fin: "js_sub (Fin a) (Fin b) = Fin (a - b)"
  by (simp add: js_sub_def)

lemma Math_max_Fin: "Math_max (Fin a) (Fin b) = Fin (max a b)"
  by (simp add: Math_max_def max_def)

lemma Math_min_Fin: "Math_min (Fin a) (Fin b) = Fin (min a b)"
  by (auto simp: Math_min_def min_def)

lemma js_ge_Fin: "js_ge (Fin a) (Fin b) = (b \<le> a)"
  by (auto simp: js_ge_def)

lemma js_gt_Fin: "js_gt (Fin a) (Fin b) = (b < a)"
  by (simp add: js_gt_def)

lemma elapsed_at_Fin: "elapsed_at p now = Fin ((now - startTime p) / 1000)"
  by (simp add: elapsed_at_def js_sub_Fin)

lemma writes_append: "writes (xs @ ys) = writes xs @ writes ys"
  by (induction xs rule: writes.induct) simp_all

lemma timeouts_append: "timeouts (xs @ ys) = timeouts xs @ timeouts ys"
  by (induction xs rule: timeouts.induct) simp_all

text \<open>A session that is finished or destroyed writes nothing more and stays so.\<close>

lemma sendData_stopped:
  assumes "isFinished s \<or> destroyed s"
  shows "sendData p now reply s = s\<lparr>pending := Idle\<rparr>"
  using assms by (simp add: sendData_def)

lemma adaptive_event_stopped:
  assumes "isFinished s \<or> destroyed s"
  shows "writes (trace (adaptive_event p ev s)) = writes (trace s) \<and>
         errors (adaptive_event p ev s) = errors s \<and>
         (isFinished (adaptive_event p ev s) \<or> destroyed (adaptive_event p ev s))"
proof (cases ev)
  case (Fire now reply)
  then show ?thesis
    using assms by (cases "pending s") (auto simp: sendData_stopped)
next
  case (Drain now reply)
  then show ?thesis
    using assms by (cases "pending s") (auto simp: writes_append)
next
  case Destroy
  then show ?thesis using assms by auto
next
  case Close
  then show ?thesis using assms by (auto simp: cleanup_def)
qed

lemma adaptive_fold_stopped:
  assumes "isFinished s \<or> destroyed s"
  shows "writes (trace (fold (adaptive_event p) evs s)) = writes (trace s) \<and>
         errors (fold (adaptive_event p) evs s) = errors s"
  using assms
proof (induction evs arbitrary: s)
  case Nil
  then show ?case by simp
next
  case (Cons ev evs)
  from adaptive_event_stopped [OF Cons.prems, of p ev]
  have w: "writes (trace (adaptive_event p ev s)) = writes (trace s)"
    and e: "errors (adaptive_event p ev s) = errors s"
    and st: "isFinished (adaptive_event p ev s) \<or> destroyed (adaptive_event p ev s)"
    by simp_all
  from Cons.IH [OF st] w e show ?case by simp
qed

text \<open>The tick at or after the duration bound: the response is ended, nothing is written.\<close>

lemma sendData_late:
  assumes "js_ge (elapsed_at p now) (duration p)" and "\<not> isFinished s" and "\<not> destroyed s"
  shows "sendData p now reply s = cleanup (end_response (s\<lparr>pending := Idle\<rparr>))"
  using assms by (simp add: sendData_def Let_def)

lemma adaptive_event_late:
  assumes "late p ev"
  shows "writes (trace (adaptive_event p ev s)) = writes (trace s) \<and>
         errors (adaptive_event p ev s) = errors s"
proof (cases "isFinished s \<or> destroyed s")
  case True
  from adaptive_event_stopped [OF this] show ?thesis by simp
next
  case False
  show ?thesis
  proof (cases ev)
    case (Fire now reply)
    with assms have "js_ge (elapsed_at p now) (duration p)" by simp
    from sendData_late [OF this] False Fire show ?thesis
      by (cases "pending s") (simp_all add: cleanup_def end_response_def writes_append)
  next
    case (Drain now reply)
    then show ?thesis by (cases "pending s") (simp_all add: writes_append)
  qed (simp_all add: cleanup_def)
qed

lemma adaptive_fold_late:
  assumes "list_all (late p) evs"
  shows "writes (trace (fold (adaptive_event p) evs s)) = writes (trace s) \<and>
         errors (fold (adaptive_event p) evs s) = errors s"
  using assms
proof (induction evs arbitrary: s)
  case Nil
  then show ?case by simp
next
  case (Cons ev evs)
  then have "late p ev" and rest: "list_all (late p) evs" by simp_all
  from adaptive_event_late [OF this(1), of s] Cons.IH [OF rest, of "adaptive_event p ev s"]
  show ?case by simp
qed

text \<open>
  Claim C5. Once the clock has reached the duration bound, that is along any events
  whose callbacks read an elapsed time at or after the bound, no chunk is written any
  more, from whatever state the session is in and so after any earlier events of a
  run; no error is logged; and the tick that reads such a time in a session that is
  still active ends the response and finishes the session, and nothing the environment
  does afterwards makes it write again.
\<close>

theorem adaptive_stops_at_duration:
  assumes "list_all (late p) evs" and "js_ge (elapsed_at p now) (duration p)"
  shows "writes (trace (fold (adaptive_event p) evs s)) = writes (trace s) \<and>
         errors (fold (adaptive_event p) evs s) = errors s \<and>
         writes (trace (adaptive_run p g now0 reply0 (earlier @ evs))) =
           writes (trace (adaptive_run p g now0 reply0 earlier)) \<and>
         writes (trace (sendData p now reply s)) = writes (trace s) \<and>
         (\<forall>further. writes (trace (fold (adaptive_event p) further (sendData p now reply s))) =
             writes (trace s)) \<and>
         (\<not> isFinished s \<and> \<not> destroyed s \<longrightarrow>
            trace (sendData p now reply s) = trace s @ [End] \<and>
            ended (sendData p now reply s) \<and> isFinished (sendData p now reply s) \<and>
            errors (sendData p now reply s) = errors s)"
proof -
  note run = adaptive_fold_late [OF assms(1)]
  have tick: "writes (trace (sendData p now reply s)) = writes (trace s)"
    and stop: "isFinished (sendData p now reply s) \<or> destroyed (sendData p now reply s)"
    using sendData_late [OF assms(2), of s reply] sendData_stopped [of s p now reply]
    by (cases "isFinished s \<or> destroyed s";
        auto simp: cleanup_def end_response_def writes_append)+
  have after: "writes (trace (fold (adaptive_event p) further (sendData p now reply s))) = writes (trace s)"
    for further
    using adaptive_fold_stopped [OF stop, of p further] tick by simp
  have active: "trace (sendData p now reply s) = trace s @ [End] \<and>
      ended (sendData p now reply s) \<and> isFinished (sendData p now reply s) \<and>
      errors (sendData p now reply s) = errors s"
    if "\<not> isFinished s \<and> \<not> destroyed s"
    using sendData_late [OF assms(2), of s reply] that
    by (simp add: cleanup_def end_response_def)
  have whole: "writes (trace (adaptive_run p g now0 reply0 (earlier @ evs))) =
      writes (trace (adaptive_run p g now0 reply0 earlier))"
    using run by (simp add: adaptive_run_def)
  show ?thesis using run tick after active whole by blast
qed

text \<open>
  The theorem on the default parameters (a duration of 5 seconds from time 0): the tick
  at 5000 ms ends the untouched session, and the events after it are late.
\<close>

theorem adaptive_stops_at_duration_witness:
  "list_all (late (adaptive_params_of NaN NaN NaN None NaN 0)) [Fire 5000 Accepted, Drain 0 Backpressure, Close] \<and>
   js_ge (elapsed_at (adaptive_params_of NaN NaN NaN None NaN 0) 5000)
     (duration (adaptive_params_of NaN NaN NaN None NaN 0)) \<and>
   trace (sendData (adaptive_params_of NaN NaN NaN None NaN 0) 5000 Accepted
     (initial_adaptive (adaptive_params_of NaN NaN NaN None NaN 0) (empty_state (\<lambda>i. 0)))) = [End] \<and>
   writes (trace (fold (adaptive_event (adaptive_params_of NaN NaN NaN None NaN 0))
     [Fire 5000 Accepted, Drain 0 Backpressure, Close]
     (initial_adaptive (adaptive_params_of NaN NaN NaN None NaN 0) (empty_state (\<lambda>i. 0))))) = []"
proof -
  let ?p = "adaptive_params_of NaN NaN NaN None NaN 0"
  let ?s = "initial_adaptive ?p (empty_state (\<lambda>i. 0))"
  have d: "duration ?p = Fin 5"
    by (simp add: adaptive_params_of_def js_or_def Math_min_Fin)
  have l: "js_ge (elapsed_at ?p 5000) (duration ?p)"
    unfolding d by (simp add: elapsed_at_Fin js_ge_Fin adaptive_params_of_def)
  have ls: "list_all (late ?p) [Fire 5000 Accepted, Drain 0 Backpressure, Close]"
    using l by simp
  have s: "\<not> isFinished ?s \<and> \<not> destroyed ?s" "trace ?s = []"
    by (simp_all add: initial_adaptive_def)
  show ?thesis
    using ls l s adaptive_stops_at_duration [OF ls l, of ?s "empty_state (\<lambda>i. 0)" 0 Accepted "[]" Accepted]
    by simp
qed

subsection \<open>The size of a chunk and the delay of a tick\<close>

lemma currentSize_at_Fin:
  assumes "initialSize p = Fin i" and "maxSize p = Fin m" and "duration p = Fin d" and "d \<noteq> 0"
  shows "currentSize_at p (Fin t) = Fin (min (i + (m - i) * min (t / d * 2) 1) m)"
  using assms by (simp add: currentSize_at_def targetSize_def Let_def js_sub_Fin Math_min_Fin)

lemma adaptive_chunkSize_Fin:
  assumes "initialSize p = Fin i" and "maxSize p = Fin m" and "duration p = Fin d" and "d \<noteq> 0"
    and "throttle p = Fin r"
  shows "adaptive_chunkSize p (Fin t) =
           Fin (max (min (i + (m - i) * min (t / d * 2) 1) m * (3/100) * r) (1/20))"
  using assms(5) currentSize_at_Fin [OF assms(1-4), of t]
  by (simp add: adaptive_chunkSize_def Math_max_Fin)

lemma target_below_max:
  assumes "i \<le> (m::rat)"
  shows "min (i + (m - i) * min x 1) m = i + (m - i) * min x 1"
proof -
  have "(m - i) * min x 1 \<le> (m - i) * 1"
    using assms by (intro mult_left_mono) simp_all
  then show ?thesis by simp
qed

lemma nextDelay_Fin:
  assumes "throttle p = Fin r" and "r \<noteq> 0"
  shows "nextDelay p (Fin t) = Fin (min 300 (100 + t * 10 / r))"
  using assms by (simp add: nextDelay_def Math_min_Fin)

text \<open>A tick before the duration bound whose chunk is generated and taken by the sink.\<close>

lemma sendData_tick:
  assumes "\<not> isFinished s" and "\<not> destroyed s"
    and "\<not> js_ge (elapsed_at p now) (duration p)"
    and "generateTestData (adaptive_chunkSize p (elapsed_at p now)) (pattern p) (gen s) = Inr (buf, g)"
  shows "sendData p now Accepted s =
           s\<lparr>pending := Timer (nextDelay p (elapsed_at p now)), gen := g,
             trace := trace s @ [Write buf, SetTimeout (nextDelay p (elapsed_at p now))],
             currentSize := currentSize_at p (elapsed_at p now)\<rparr>"
    and "sendData p now Backpressure s =
           s\<lparr>pending := DrainTimer (nextDelay p (elapsed_at p now)), gen := g,
             trace := trace s @ [Write buf],
             currentSize := currentSize_at p (elapsed_at p now)\<rparr>"
  using assms by (simp_all add: sendData_def Let_def)

text \<open>
  Claim C6, as amended. The chunk of a tick is cut from the target size capped at the
  maximum: its size in MB is \<open>max(min(targetSize, m) * 0.03 * r, 0.05)\<close> with
  \<open>targetSize = i + (m - i) * min((t/d) * 2, 1)\<close>. When the initial size is not above the
  maximum the cap does nothing and the size is the fraction of the target itself. The
  buffer a tick writes has the bytes of that size.
\<close>

theorem adaptive_chunk_size:
  assumes "initialSize p = Fin i" and "maxSize p = Fin m" and "duration p = Fin d" and "d \<noteq> 0"
    and "throttle p = Fin r" and "t = (now - startTime p) / 1000"
    and "c = max (min (i + (m - i) * min (t / d * 2) 1) m * (3/100) * r) (1/20)"
  shows "adaptive_chunkSize p (elapsed_at p now) = Fin c \<and>
         (i \<le> m \<longrightarrow> c = spec_chunkSize i m t d r) \<and>
         (cache_ok (gen s) \<and> \<not> isFinished s \<and> \<not> destroyed s \<and> t < d \<and>
          c * 1024 * 1024 \<le> kMaxPossibleLength \<and> reply \<noteq> Throws \<longrightarrow>
            (\<exists>buf. writes (trace (sendData p now reply s)) = writes (trace s) @ [buf] \<and>
                   int (length buf) = \<lfloor>c * 1024 * 1024\<rfloor>))"
proof -
  have el: "elapsed_at p now = Fin t" using assms(6) by (simp add: elapsed_at_Fin)
  have cs: "adaptive_chunkSize p (elapsed_at p now) = Fin c"
    unfolding el assms(7) by (rule adaptive_chunkSize_Fin [OF assms(1,2,3,4,5)])
  have sp: "c = spec_chunkSize i m t d r" if "i \<le> m"
    unfolding assms(7) spec_chunkSize_def using target_below_max [OF that] by simp
  have wr: "\<exists>buf. writes (trace (sendData p now reply s)) = writes (trace s) @ [buf] \<and>
      int (length buf) = \<lfloor>c * 1024 * 1024\<rfloor>"
    if h: "cache_ok (gen s) \<and> \<not> isFinished s \<and> \<not> destroyed s \<and> t < d \<and>
      c * 1024 * 1024 \<le> kMaxPossibleLength \<and> reply \<noteq> Throws"
  proof -
    have c0: "0 \<le> c" unfolding assms(7) by simp
    from h have ok: "cache_ok (gen s)" and lim: "c * 1024 * 1024 \<le> kMaxPossibleLength" by simp_all
    from generateTestData_ok [OF ok c0 lim, of "pattern p"]
    obtain buf g where gen: "generateTestData (Fin c) (pattern p) (gen s) = Inr (buf, g)"
      and len: "length buf = byte_count c" by blast
    have early: "\<not> js_ge (elapsed_at p now) (duration p)"
      using h by (simp add: el assms(3) js_ge_Fin)
    have g': "generateTestData (adaptive_chunkSize p (elapsed_at p now)) (pattern p) (gen s) = Inr (buf, g)"
      using gen cs by simp
    have "0 \<le> \<lfloor>c * 1024 * 1024\<rfloor>" using c0 by simp
    then have l: "int (length buf) = \<lfloor>c * 1024 * 1024\<rfloor>" using len by (simp add: byte_count_def)
    have "writes (trace (sendData p now reply s)) = writes (trace s) @ [buf]"
    proof (cases reply)
      case Accepted
      then show ?thesis using sendData_tick(1) [OF _ _ early g'] h by (simp add: writes_append)
    next
      case Backpressure
      then show ?thesis using sendData_tick(2) [OF _ _ early g'] h by (simp add: writes_append)
    next
      case Throws
      then show ?thesis using h by simp
    qed
    with l show ?thesis by blast
  qed
  show ?thesis using cs sp wr by blast
qed

lemma default_params:
  "initialSize (adaptive_params_of NaN NaN NaN None NaN 0) = Fin 1"
  "maxSize (adaptive_params_of NaN NaN NaN None NaN 0) = Fin 5"
  "duration (adaptive_params_of NaN NaN NaN None NaN 0) = Fin 5"
  "throttle (adaptive_params_of NaN NaN NaN None NaN 0) = Fin 1"
  "startTime (adaptive_params_of NaN NaN NaN None NaN 0) = 0"
  "pattern (adaptive_params_of NaN NaN NaN None NaN 0) = ''random''"
  by (simp_all add: adaptive_params_of_def js_or_def Math_min_Fin Math_max_Fin resolve_pattern_def)

text \<open>
  The theorem on the default parameters (1 MB to 5 MB in 5 seconds, throttle 1), one
  second after the start: a chunk of 0.078 MB, 81788 bytes.
\<close>

theorem adaptive_chunk_size_witness:
  "initialSize (adaptive_params_of NaN NaN NaN None NaN 0) = Fin 1 \<and>
   maxSize (adaptive_params_of NaN NaN NaN None NaN 0) = Fin 5 \<and>
   duration (adaptive_params_of NaN NaN NaN None NaN 0) = Fin 5 \<and>
   throttle (adaptive_params_of NaN NaN NaN None NaN 0) = Fin 1 \<and>
   adaptive_chunkSize (adaptive_params_of NaN NaN NaN None NaN 0)
     (elapsed_at (adaptive_params_of NaN NaN NaN None NaN 0) 1000) = Fin (39/500) \<and>
   spec_chunkSize 1 5 1 5 1 = 39/500 \<and>
   (\<exists>buf. writes (trace (sendData (adaptive_params_of NaN NaN NaN None NaN 0) 1000 Accepted
              (initial_adaptive (adaptive_params_of NaN NaN NaN None NaN 0) (empty_state (\<lambda>i. 0))))) = [buf] \<and>
          int (length buf) = 81788)"
proof -
  let ?p = "adaptive_params_of NaN NaN NaN None NaN 0"
  let ?s = "initial_adaptive ?p (empty_state (\<lambda>i. 0))"
  have d: "(5::rat) \<noteq> 0" by simp
  have t: "(1::rat) = (1000 - startTime ?p) / 1000" by (simp add: default_params)
  have c: "(39/500::rat) = max (min (1 + (5 - 1) * min (1 / 5 * 2) 1) 5 * (3/100) * 1) (1/20)"
    by simp
  have s: "cache_ok (gen ?s)" "\<not> isFinished ?s" "\<not> destroyed ?s" "trace ?s = []"
    by (simp_all add: initial_adaptive_def cache_ok_empty)
  have lim: "(39/500::rat) * 1024 * 1024 \<le> kMaxPossibleLength" by (simp add: kMaxPossibleLength_def)
  have fl: "\<lfloor>(39/500::rat) * 1024 * 1024\<rfloor> = 81788" by (simp add: floor_eq_iff)
  show ?thesis
    using adaptive_chunk_size [OF default_params(1,2,3) d default_params(4) t c, of ?s Accepted]
      s lim fl default_params
    by simp
qed

text \<open>
  Claim C6 as stated fails when the initial size is above the maximum: with an initial
  size of 8 MB and the default maximum of 5 MB the first chunk is 0.15 MB, 3 percent of
  the maximum, where the stated formula gives 0.24 MB, 3 percent of the target of 8 MB.
\<close>

theorem adaptive_chunk_size_counterexample:
  "initialSize (adaptive_params_of (Fin 8) NaN NaN None NaN 0) = Fin 8 \<and>
   maxSize (adaptive_params_of (Fin 8) NaN NaN None NaN 0) = Fin 5 \<and>
   duration (adaptive_params_of (Fin 8) NaN NaN None NaN 0) = Fin 5 \<and>
   throttle (adaptive_params_of (Fin 8) NaN NaN None NaN 0) = Fin 1 \<and>
   adaptive_chunkSize (adaptive_params_of (Fin 8) NaN NaN None NaN 0)
     (elapsed_at (adaptive_params_of (Fin 8) NaN NaN None NaN 0) 0) = Fin (3/20) \<and>
   spec_chunkSize 8 5 0 5 1 = 6/25"
  by (simp add: adaptive_params_of_def js_or_def Math_min_Fin Math_max_Fin elapsed_at_Fin
      adaptive_chunkSize_def currentSize_at_def targetSize_def js_sub_Fin spec_chunkSize_def)

text \<open>
  Claim C7, as amended. The delay before the next tick is
  \<open>min(300, 100 + elapsed * 10 / r)\<close> milliseconds with the elapsed time in seconds, so
  \<open>elapsed_ms / 1000\<close> where the milliseconds were stated. It is the delay of the timer a
  tick arms after a write the sink accepted, and of the timer that waits for the drain
  after a write it did not.
\<close>

theorem adaptive_next_delay:
  assumes "throttle p = Fin r" and "0 < r" and "elapsed_ms = now - startTime p"
  shows "nextDelay p (elapsed_at p now) = Fin (min 300 (100 + (elapsed_ms / 1000) * 10 / r)) \<and>
         (\<not> isFinished s \<and> \<not> destroyed s \<and> \<not> js_ge (elapsed_at p now) (duration p) \<and>
          generateTestData (adaptive_chunkSize p (elapsed_at p now)) (pattern p) (gen s) = Inr (buf, g) \<longrightarrow>
            timeouts (trace (sendData p now Accepted s)) =
              timeouts (trace s) @ [Fin (min 300 (100 + (elapsed_ms / 1000) * 10 / r))] \<and>
            pending (sendData p now Accepted s) =
              Timer (Fin (min 300 (100 + (elapsed_ms / 1000) * 10 / r))) \<and>
            pending (sendData p now Backpressure s) =
              DrainTimer (Fin (min 300 (100 + (elapsed_ms / 1000) * 10 / r))))"
proof -
  have r: "r \<noteq> 0" using assms(2) by simp
  have nd: "nextDelay p (elapsed_at p now) = Fin (min 300 (100 + (elapsed_ms / 1000) * 10 / r))"
    unfolding elapsed_at_Fin assms(3) by (rule nextDelay_Fin [OF assms(1) r])
  have "timeouts (trace (sendData p now Accepted s)) =
      timeouts (trace s) @ [Fin (min 300 (100 + (elapsed_ms / 1000) * 10 / r))] \<and>
    pending (sendData p now Accepted s) = Timer (Fin (min 300 (100 + (elapsed_ms / 1000) * 10 / r))) \<and>
    pending (sendData p now Backpressure s) = DrainTimer (Fin (min 300 (100 + (elapsed_ms / 1000) * 10 / r)))"
    if "\<not> isFinished s \<and> \<not> destroyed s \<and> \<not> js_ge (elapsed_at p now) (duration p) \<and>
      generateTestData (adaptive_chunkSize p (elapsed_at p now)) (pattern p) (gen s) = Inr (buf, g)"
    using that sendData_tick [of s p now buf g] nd by (simp add: timeouts_append)
  with nd show ?thesis by blast
qed

text \<open>
  The theorem on the default parameters, one second after the start: the timer is armed
  with 110 ms.
\<close>

theorem adaptive_next_delay_witness:
  "throttle (adaptive_params_of NaN NaN NaN None NaN 0) = Fin 1 \<and> (0::rat) < 1 \<and>
   nextDelay (adaptive_params_of NaN NaN NaN None NaN 0)
     (elapsed_at (adaptive_params_of NaN NaN NaN None NaN 0) 1000) = Fin 110 \<and>
   timeouts (trace (sendData (adaptive_params_of NaN NaN NaN None NaN 0) 1000 Accepted
     (initial_adaptive (adaptive_params_of NaN NaN NaN None NaN 0) (empty_state (\<lambda>i. 0))))) = [Fin 110]"
proof -
  let ?p = "adaptive_params_of NaN NaN NaN None NaN 0"
  let ?s = "initial_adaptive ?p (empty_state (\<lambda>i. 0))"
  have r: "(0::rat) < 1" by simp
  have e: "(1000::rat) = 1000 - startTime ?p" by (simp add: default_params)
  have s: "cache_ok (gen ?s)" "\<not> isFinished ?s" "\<not> destroyed ?s" "trace ?s = []"
    by (simp_all add: initial_adaptive_def cache_ok_empty)
  have cs: "adaptive_chunkSize ?p (elapsed_at ?p 1000) = Fin (39/500)"
    by (simp add: elapsed_at_Fin default_params adaptive_chunkSize_Fin [OF default_params(1,2,3) _ default_params(4)])
  have lim: "(39/500::rat) * 1024 * 1024 \<le> kMaxPossibleLength" by (simp add: kMaxPossibleLength_def)
  from generateTestData_ok [OF s(1) _ lim, of "pattern ?p"]
  obtain buf g where gen: "generateTestData (Fin (39/500)) (pattern ?p) (gen ?s) = Inr (buf, g)"
    by auto
  have early: "\<not> js_ge (elapsed_at ?p 1000) (duration ?p)"
    by (simp add: elapsed_at_Fin default_params js_ge_Fin)
  show ?thesis
    using adaptive_next_delay [OF default_params(4) r e, of ?s buf g] s early gen cs default_params(4)
    by simp
qed

text \<open>
  Claim C7 as stated fails: one second after the start, with throttle 1, the next tick
  is 110 ms away, where the stated formula on 1000 elapsed milliseconds gives 300 ms.
\<close>

theorem adaptive_next_delay_counterexample:
  "throttle (adaptive_params_of NaN NaN NaN None NaN 0) = Fin 1 \<and>
   startTime (adaptive_params_of NaN NaN NaN None NaN 0) = 0 \<and>
   nextDelay (adaptive_params_of NaN NaN NaN None NaN 0)
     (elapsed_at (adaptive_params_of NaN NaN NaN None NaN 0) 1000) = Fin 110 \<and>
   spec_nextDelay 1000 1 = 300"
  by (simp add: adaptive_params_of_def js_or_def Math_min_Fin Math_max_Fin elapsed_at_Fin
      nextDelay_def spec_nextDelay_def)

section \<open>Connection warmup\<close>

lemma scheduled_snoc:
  "scheduled (bs @ [b]) = scheduled bs @ [Write b, SetTimeout (Fin (delay (phases ! length bs)))]"
proof -
  have eq: "map (\<lambda>j. [Write ((bs @ [b]) ! j), SetTimeout (Fin (delay (phases ! j)))]) [0..<length bs] =
      map (\<lambda>j. [Write (bs ! j), SetTimeout (Fin (delay (phases ! j)))]) [0..<length bs]"
    by (rule map_cong) (simp_all add: nth_append)
  show ?thesis unfolding scheduled_def by (simp add: eq)
qed

lemma payloads_ok_snoc:
  assumes "payloads_ok bs" and "length bs < length phases"
    and "length b = byte_count (sizeMB (phases ! length bs))"
  shows "payloads_ok (bs @ [b])"
proof -
  have "list_all (\<lambda>j. length ((bs @ [b]) ! j) = byte_count (sizeMB (phases ! j))) [0..<length bs]"
    using assms(1) by (simp add: payloads_ok_def list_all_iff nth_append)
  then show ?thesis using assms(2,3) by (simp add: payloads_ok_def)
qed

lemma phase_in_range:
  assumes "k < length phases"
  shows "0 \<le> sizeMB (phases ! k) \<and> sizeMB (phases ! k) * 1024 * 1024 \<le> kMaxPossibleLength"
proof -
  have "\<forall>ph \<in> set phases. 0 \<le> sizeMB ph \<and> sizeMB ph * 1024 * 1024 \<le> kMaxPossibleLength"
    by (simp add: phases_def kMaxPossibleLength_def)
  then show ?thesis using assms nth_mem by blast
qed

text \<open>One call of \<open>sendPhase\<close> in an active session that has phases left.\<close>

lemma sendPhase_step:
  assumes act: "\<not> isFinished s" "\<not> destroyed s" and k: "currentPhase s < length phases"
    and ok: "cache_ok (gen s)"
  obtains buf g where "cache_ok g" and "length buf = byte_count (sizeMB (phases ! currentPhase s))"
    and "sendPhase Accepted s =
           s\<lparr>pending := (if currentPhase s + 1 < length phases
                          then Timer (Fin (delay (phases ! currentPhase s)))
                          else EndTimer (Fin (delay (phases ! currentPhase s)))),
             gen := g,
             trace := trace s @ [Write buf, SetTimeout (Fin (delay (phases ! currentPhase s)))],
             currentPhase := currentPhase s + 1\<rparr>"
    and "sendPhase Backpressure s =
           (if currentPhase s + 1 < length phases
            then s\<lparr>pending := DrainTimer (Fin (delay (phases ! currentPhase s))), gen := g,
                   trace := trace s @ [Write buf], currentPhase := currentPhase s + 1\<rparr>
            else s\<lparr>pending := EndTimer (Fin (delay (phases ! currentPhase s))), gen := g,
                   trace := trace s @ [Write buf, SetTimeout (Fin (delay (phases ! currentPhase s)))],
                   currentPhase := currentPhase s + 1\<rparr>)"
    and "0 < errors (sendPhase Throws s)"
proof -
  from phase_in_range [OF k]
  have r: "0 \<le> sizeMB (phases ! currentPhase s)"
    "sizeMB (phases ! currentPhase s) * 1024 * 1024 \<le> kMaxPossibleLength" by simp_all
  from generateTestData_ok [OF ok r, of "''random''"]
  obtain buf g where gen: "generateTestData (Fin (sizeMB (phases ! currentPhase s))) ''random'' (gen s) = Inr (buf, g)"
    and len: "length buf = byte_count (sizeMB (phases ! currentPhase s))" and okg: "cache_ok g"
    by blast
  show ?thesis
  proof (rule that [OF okg len])
    show "sendPhase Accepted s =
           s\<lparr>pending := (if currentPhase s + 1 < length phases
                          then Timer (Fin (delay (phases ! currentPhase s)))
                          else EndTimer (Fin (delay (phases ! currentPhase s)))),
             gen := g,
             trace := trace s @ [Write buf, SetTimeout (Fin (delay (phases ! currentPhase s)))],
             currentPhase := currentPhase s + 1\<rparr>"
      using act k gen by (simp add: sendPhase_def Let_def)
    show "sendPhase Backpressure s =
           (if currentPhase s + 1 < length phases
            then s\<lparr>pending := DrainTimer (Fin (delay (phases ! currentPhase s))), gen := g,
                   trace := trace s @ [Write buf], currentPhase := currentPhase s + 1\<rparr>
            else s\<lparr>pending := EndTimer (Fin (delay (phases ! currentPhase s))), gen := g,
                   trace := trace s @ [Write buf, SetTimeout (Fin (delay (phases ! currentPhase s)))],
                   currentPhase := currentPhase s + 1\<rparr>)"
      using act k gen by (simp add: sendPhase_def Let_def)
    show "0 < errors (sendPhase Throws s)"
      using act k gen by (simp add: sendPhase_def Let_def cleanup_def end_response_def)
  qed
qed

text \<open>\<open>sendPhase\<close> on a session whose trace is the schedule of the phases so far.\<close>

lemma sendPhase_inv:
  assumes ok: "cache_ok (gen s)" and ne: "\<not> ended s" and bs: "payloads_ok bs"
    and len: "length bs = currentPhase s" and k: "currentPhase s < length phases"
    and tr: "trace s = scheduled bs"
  shows "warmup_inv (sendPhase reply s)"
proof (cases "isFinished s \<or> destroyed s")
  case True
  then show ?thesis using ne by (auto simp: sendPhase_def warmup_inv_def)
next
  case False
  then have act: "\<not> isFinished s" "\<not> destroyed s" by simp_all
  from sendPhase_step [OF act k ok]
  obtain buf g where okg: "cache_ok g"
    and lb: "length buf = byte_count (sizeMB (phases ! currentPhase s))"
    and acc: "sendPhase Accepted s =
           s\<lparr>pending := (if currentPhase s + 1 < length phases
                          then Timer (Fin (delay (phases ! currentPhase s)))
                          else EndTimer (Fin (delay (phases ! currentPhase s)))),
             gen := g,
             trace := trace s @ [Write buf, SetTimeout (Fin (delay (phases ! currentPhase s)))],
             currentPhase := currentPhase s + 1\<rparr>"
    and bp: "sendPhase Backpressure s =
           (if currentPhase s + 1 < length phases
            then s\<lparr>pending := DrainTimer (Fin (delay (phases ! currentPhase s))), gen := g,
                   trace := trace s @ [Write buf], currentPhase := currentPhase s + 1\<rparr>
            else s\<lparr>pending := EndTimer (Fin (delay (phases ! currentPhase s))), gen := g,
                   trace := trace s @ [Write buf, SetTimeout (Fin (delay (phases ! currentPhase s)))],
                   currentPhase := currentPhase s + 1\<rparr>)"
    and thr: "0 < errors (sendPhase Throws s)"
    by blast
  have bs': "payloads_ok (bs @ [buf])"
    using payloads_ok_snoc [OF bs] k len lb by simp
  have sch: "scheduled (bs @ [buf]) =
      trace s @ [Write buf, SetTimeout (Fin (delay (phases ! currentPhase s)))]"
    using tr len by (simp add: scheduled_snoc)
  have l': "length (bs @ [buf]) = currentPhase s + 1" using len by simp
  show ?thesis
  proof (cases reply)
    case Accepted
    have "\<exists>cs. payloads_ok cs \<and> length cs = currentPhase s + 1 \<and>
        trace s @ [Write buf, SetTimeout (Fin (delay (phases ! currentPhase s)))] = scheduled cs"
      using bs' sch l' by metis
    then show ?thesis
      unfolding Accepted acc warmup_inv_def using ne okg by auto
  next
    case Backpressure
    have "\<exists>cs. payloads_ok cs \<and> length cs = currentPhase s + 1 \<and>
        trace s @ [Write buf, SetTimeout (Fin (delay (phases ! currentPhase s)))] = scheduled cs"
      using bs' sch l' by metis
    then show ?thesis
      unfolding Backpressure bp warmup_inv_def using ne okg by auto
  next
    case Throws
    then show ?thesis using thr by (simp add: warmup_inv_def)
  qed
qed

lemma sendPhase_errors_mono: "errors s \<le> errors (sendPhase reply s)"
  by (cases reply)
    (auto simp: sendPhase_def Let_def cleanup_def end_response_def split: sum.splits)

lemma warmup_event_errors_mono: "errors s \<le> errors (warmup_event ev s)"
  by (cases ev; cases "pending s")
    (simp_all add: sendPhase_errors_mono cleanup_def end_response_def)

lemma warmup_event_idle:
  assumes "pending s = Idle"
  shows "pending (warmup_event ev s) = Idle \<and> ended (warmup_event ev s) = ended s \<and>
         trace (warmup_event ev s) = trace s"
  using assms by (cases ev) (simp_all add: cleanup_def)

lemma warmup_event_inv:
  assumes "warmup_inv s"
  shows "warmup_inv (warmup_event ev s)"
proof -
  consider (failed) "0 < errors s"
    | (short) "\<not> ended s" "pending s = Idle"
    | (complete) bs where "ended s" "pending s = Idle" "payloads_ok bs" "length bs = length phases"
        "trace s = scheduled bs @ [End]"
    | (timer) bs where "\<not> ended s" "cache_ok (gen s)" "payloads_ok bs" "length bs = currentPhase s"
        "0 < currentPhase s" "currentPhase s < length phases"
        "pending s = Timer (Fin (delay (phases ! (currentPhase s - 1))))" "trace s = scheduled bs"
    | (drain) bs where "\<not> ended s" "cache_ok (gen s)" "payloads_ok bs" "length bs = currentPhase s"
        "0 < currentPhase s" "currentPhase s < length phases"
        "pending s = DrainTimer (Fin (delay (phases ! (currentPhase s - 1))))"
        "trace s @ [SetTimeout (Fin (delay (phases ! (currentPhase s - 1))))] = scheduled bs"
    | (final) bs where "\<not> ended s" "cache_ok (gen s)" "payloads_ok bs" "length bs = currentPhase s"
        "0 < currentPhase s" "\<not> currentPhase s < length phases"
        "pending s = EndTimer (Fin (delay (phases ! (currentPhase s - 1))))" "trace s = scheduled bs"
    using assms unfolding warmup_inv_def by (auto split: if_splits)
  then show ?thesis
  proof cases
    case failed
    then have "0 < errors (warmup_event ev s)"
      using warmup_event_errors_mono [of s ev] by linarith
    then show ?thesis by (simp add: warmup_inv_def)
  next
    case short
    then show ?thesis using warmup_event_idle [of s ev] by (simp add: warmup_inv_def)
  next
    case complete
    then show ?thesis using warmup_event_idle [of s ev] by (auto simp: warmup_inv_def)
  next
    case timer
    show ?thesis
    proof (cases ev)
      case (Fire now reply)
      then show ?thesis
        using timer sendPhase_inv [of s bs reply] by simp
    next
      case (Drain now reply)
      then show ?thesis using timer assms by simp
    next
      case Destroy
      then show ?thesis using timer by (auto simp: warmup_inv_def)
    next
      case Close
      then show ?thesis using timer by (auto simp: warmup_inv_def cleanup_def)
    qed
  next
    case drain
    show ?thesis
    proof (cases ev)
      case (Fire now reply)
      then show ?thesis using drain assms by simp
    next
      case (Drain now reply)
      then show ?thesis using drain by (auto simp: warmup_inv_def)
    next
      case Destroy
      then show ?thesis using drain by (auto simp: warmup_inv_def)
    next
      case Close
      then show ?thesis using drain by (auto simp: warmup_inv_def cleanup_def)
    qed
  next
    case final
    have full: "length bs = length phases"
      using final(3,4,6) by (simp add: payloads_ok_def)
    show ?thesis
    proof (cases ev)
      case (Fire now reply)
      then show ?thesis
        using final full by (auto simp: warmup_inv_def cleanup_def end_response_def)
    next
      case (Drain now reply)
      then show ?thesis using final assms by simp
    next
      case Destroy
      then show ?thesis using final by (auto simp: warmup_inv_def)
    next
      case Close
      then show ?thesis using final by (auto simp: warmup_inv_def cleanup_def)
    qed
  qed
qed

lemma warmup_fold_inv: "warmup_inv s \<Longrightarrow> warmup_inv (fold warmup_event evs s)"
  by (induction evs arbitrary: s) (simp_all add: warmup_event_inv)

lemma warmup_run_inv:
  assumes "cache_ok g"
  shows "warmup_inv (warmup_run g reply evs)"
proof -
  have "warmup_inv (sendPhase reply (initial_warmup g))"
    by (rule sendPhase_inv [of _ "[]"])
      (simp_all add: initial_warmup_def assms payloads_ok_def scheduled_def phases_def)
  then show ?thesis unfolding warmup_run_def by (rule warmup_fold_inv)
qed

lemma byte_counts:
  "byte_count (1/2) = 524288" "byte_count 1 = 1048576" "byte_count 2 = 2097152"
  by (simp_all add: byte_count_def)

lemma scheduled_four:
  assumes "payloads_ok bs" and "length bs = length phases"
  shows "scheduled bs =
           [Write (bs ! 0), SetTimeout (Fin 100), Write (bs ! 1), SetTimeout (Fin 150),
            Write (bs ! 2), SetTimeout (Fin 200), Write (bs ! 3), SetTimeout (Fin 250)] \<and>
         length (bs ! 0) = 104857 \<and> length (bs ! 1) = 524288 \<and>
         length (bs ! 2) = 1048576 \<and> length (bs ! 3) = 2097152"
proof -
  have four: "length bs = 4" using assms(2) by (simp add: phases_def)
  have upt: "[0..<4] = [0, 1, 2, Suc 2]" by (simp add: upt_rec)
  show ?thesis
    using assms(1) unfolding payloads_ok_def scheduled_def four upt
    by (simp add: phases_def byte_counts byte_count_tenth)
qed

text \<open>
  Claim C8. A warmup that ran to its normal end (the response ended, no error logged)
  has written exactly four payloads, of 0.1, 0.5, 1 and 2 MB in this order, has armed
  after each its timer of 100, 150, 200 and 250 ms, and has ended the response last, in
  the callback of the last timer.
\<close>

theorem warmup_phases:
  assumes "cache_ok g" and "ended (warmup_run g reply evs)"
    and "errors (warmup_run g reply evs) = 0"
  shows "\<exists>b1 b2 b3 b4.
           trace (warmup_run g reply evs) =
             [Write b1, SetTimeout (Fin 100), Write b2, SetTimeout (Fin 150),
              Write b3, SetTimeout (Fin 200), Write b4, SetTimeout (Fin 250), End] \<and>
           length b1 = 104857 \<and> length b2 = 524288 \<and>
           length b3 = 1048576 \<and> length b4 = 2097152"
proof -
  let ?s = "warmup_run g reply evs"
  from warmup_run_inv [OF assms(1), of reply evs] assms(2,3)
  obtain bs where bs: "payloads_ok bs" "length bs = length phases"
    and tr: "trace ?s = scheduled bs @ [End]"
    unfolding warmup_inv_def by auto
  from scheduled_four [OF bs] tr show ?thesis by simp
qed

text \<open>
  A sink that accepts every write lets the warmup end: the call of the handler and four
  timers.
\<close>

lemma sendPhase_accepted:
  assumes "\<not> isFinished s" and "\<not> destroyed s" and "errors s = 0" and "cache_ok (gen s)"
    and "currentPhase s < length phases"
  shows "\<not> isFinished (sendPhase Accepted s) \<and> \<not> destroyed (sendPhase Accepted s) \<and>
         errors (sendPhase Accepted s) = 0 \<and> cache_ok (gen (sendPhase Accepted s)) \<and>
         currentPhase (sendPhase Accepted s) = currentPhase s + 1 \<and>
         (if currentPhase s + 1 < length phases
          then \<exists>d. pending (sendPhase Accepted s) = Timer d
          else \<exists>d. pending (sendPhase Accepted s) = EndTimer d)"
proof -
  from sendPhase_step [OF assms(1,2,5,4)]
  obtain buf g where "cache_ok g"
    and "sendPhase Accepted s =
           s\<lparr>pending := (if currentPhase s + 1 < length phases
                          then Timer (Fin (delay (phases ! currentPhase s)))
                          else EndTimer (Fin (delay (phases ! currentPhase s)))),
             gen := g,
             trace := trace s @ [Write buf, SetTimeout (Fin (delay (phases ! currentPhase s)))],
             currentPhase := currentPhase s + 1\<rparr>"
    by blast
  then show ?thesis using assms(1,2,3) by simp
qed

lemma warmup_fires:
  assumes "\<not> isFinished s" and "\<not> destroyed s" and "errors s = 0" and "cache_ok (gen s)"
    and "currentPhase s + n = length phases"
    and "if currentPhase s < length phases then \<exists>d. pending s = Timer d
         else \<exists>d. pending s = EndTimer d"
  shows "ended (fold warmup_event (replicate (Suc n) (Fire now Accepted)) s) \<and>
         errors (fold warmup_event (replicate (Suc n) (Fire now Accepted)) s) = 0"
  using assms
proof (induction n arbitrary: s)
  case 0
  then obtain d where "pending s = EndTimer d" by auto
  then show ?case using "0.prems"(1,2,3) by (simp add: cleanup_def end_response_def)
next
  case (Suc n)
  then have k: "currentPhase s < length phases" by simp
  with Suc.prems(6) obtain d where "pending s = Timer d" by auto
  then have step: "fold warmup_event (replicate (Suc (Suc n)) (Fire now Accepted)) s =
      fold warmup_event (replicate (Suc n) (Fire now Accepted)) (sendPhase Accepted s)"
    by simp
  from sendPhase_accepted [OF Suc.prems(1,2,3,4) k]
  have a: "\<not> isFinished (sendPhase Accepted s)" "\<not> destroyed (sendPhase Accepted s)"
    "errors (sendPhase Accepted s) = 0" "cache_ok (gen (sendPhase Accepted s))"
    and cp: "currentPhase (sendPhase Accepted s) = currentPhase s + 1"
    and pe: "if currentPhase s + 1 < length phases
          then \<exists>d. pending (sendPhase Accepted s) = Timer d
          else \<exists>d. pending (sendPhase Accepted s) = EndTimer d"
    by simp_all
  have n: "currentPhase (sendPhase Accepted s) + n = length phases"
    using cp Suc.prems(5) by simp
  have pe': "if currentPhase (sendPhase Accepted s) < length phases
      then \<exists>d. pending (sendPhase Accepted s) = Timer d
      else \<exists>d. pending (sendPhase Accepted s) = EndTimer d"
    using pe cp by simp
  show ?case unfolding step by (rule Suc.IH [OF a n pe'])
qed

lemma warmup_completes:
  assumes "cache_ok g"
  shows "ended (warmup_run g Accepted (replicate 4 (Fire now Accepted))) \<and>
         errors (warmup_run g Accepted (replicate 4 (Fire now Accepted))) = 0"
proof -
  let ?s = "initial_warmup g"
  have init: "\<not> isFinished ?s" "\<not> destroyed ?s" "errors ?s = 0" "cache_ok (gen ?s)"
    "currentPhase ?s < length phases" "currentPhase ?s = 0"
    using assms by (simp_all add: initial_warmup_def phases_def)
  from sendPhase_accepted [OF init(1-5)]
  have a: "\<not> isFinished (sendPhase Accepted ?s)" "\<not> destroyed (sendPhase Accepted ?s)"
    "errors (sendPhase Accepted ?s) = 0" "cache_ok (gen (sendPhase Accepted ?s))"
    and cp: "currentPhase (sendPhase Accepted ?s) = 1"
    and pe: "\<exists>d. pending (sendPhase Accepted ?s) = Timer d"
    using init(6) by (simp_all add: phases_def)
  have n: "currentPhase (sendPhase Accepted ?s) + 3 = length phases"
    using cp by (simp add: phases_def)
  have pe': "if currentPhase (sendPhase Accepted ?s) < length phases
      then \<exists>d. pending (sendPhase Accepted ?s) = Timer d
      else \<exists>d. pending (sendPhase Accepted ?s) = EndTimer d"
    using pe cp by (simp add: phases_def)
  have four: "(4::nat) = Suc 3" by simp
  show ?thesis
    unfolding warmup_run_def four by (rule warmup_fires [OF a n pe'])
qed

text \<open>
  The theorem after the start of the process, with a sink that accepts every write and
  the four timers firing.
\<close>

theorem warmup_phases_witness:
  "cache_ok (startup_state (\<lambda>i. 0)) \<and>
   ended (warmup_run (startup_state (\<lambda>i. 0)) Accepted (replicate 4 (Fire 0 Accepted))) \<and>
   errors (warmup_run (startup_state (\<lambda>i. 0)) Accepted (replicate 4 (Fire 0 Accepted))) = 0 \<and>
   (\<exists>b1 b2 b3 b4.
      trace (warmup_run (startup_state (\<lambda>i. 0)) Accepted (replicate 4 (Fire 0 Accepted))) =
        [Write b1, SetTimeout (Fin 100), Write b2, SetTimeout (Fin 150),
         Write b3, SetTimeout (Fin 200), Write b4, SetTimeout (Fin 250), End] \<and>
      length b1 = 104857 \<and> length b2 = 524288 \<and> length b3 = 1048576 \<and> length b4 = 2097152)"
proof -
  have ok: "cache_ok (startup_state (\<lambda>i. 0))" by (rule cache_ok_startup)
  from warmup_completes [OF ok, of 0]
  have e: "ended (warmup_run (startup_state (\<lambda>i. 0)) Accepted (replicate 4 (Fire 0 Accepted)))"
    and z: "errors (warmup_run (startup_state (\<lambda>i. 0)) Accepted (replicate 4 (Fire 0 Accepted))) = 0"
    by simp_all
  from warmup_phases [OF ok e z] ok e z show ?thesis by blast
qed

section \<open>Upload\<close>

lemma dec_small: "n < 10 \<Longrightarrow> dec n = [''0123456789'' ! n]"
  by (simp add: dec.simps)

lemma dec_big: "\<not> n < 10 \<Longrightarrow> dec n = dec (n div 10) @ [''0123456789'' ! (n mod 10)]"
  by (subst dec.simps) simp

lemma toFixed3_zero: "toFixed3 (Fin 0) = Some ''0.000''"
  by (simp add: dec_small numeral_2_eq_2)

lemma js_gt_zero_cases:
  assumes "js_gt a (Fin 0)"
  obtains t where "a = Fin t" and "0 < t" | "a = PosInf"
  using assms by (cases a) (simp_all add: js_gt_def)

text \<open>The divisor of the throughput, as both routes compute it.\<close>

lemma speedMbps_guarded:
  "(if js_gt tt (Fin 0)
    then js_gt (js_mul (js_mul (js_div tt (Fin 1000)) (Fin 1024)) (Fin 1024)) (Fin 0) \<and>
         speedMbps n tt =
           js_div (js_mul (Fin (of_nat n)) (Fin 8))
             (js_mul (js_mul (js_div tt (Fin 1000)) (Fin 1024)) (Fin 1024)) \<and>
         (\<exists>v. speedMbps n tt = Fin v \<and> 0 \<le> v)
    else speedMbps n tt = Fin 0 \<and> toFixed3 (speedMbps n tt) = Some ''0.000'')"
proof (cases "js_gt tt (Fin 0)")
  case True
  then show ?thesis
  proof (cases rule: js_gt_zero_cases)
    case (1 t)
    then show ?thesis by (simp add: speedMbps_def js_gt_def)
  next
    case 2
    then show ?thesis by (simp add: speedMbps_def js_gt_def inf_of_sign_def)
  qed
next
  case False
  then show ?thesis by (simp add: speedMbps_def toFixed3_zero del: toFixed3.simps)
qed

text \<open>
  Claim C10. In both upload routes, a request that carries data is answered with the
  speed 0, printed \<open>0.000\<close>, whenever the total time is not above zero; the quotient
  \<open>bytes * 8 / ((totalTime / 1000) * 1024 * 1024)\<close> is the speed only when the total time
  is above zero, and then its divisor is above zero and the speed is a finite number
  that is not negative: never a division by zero, an infinity, NaN or a negative speed.
\<close>

theorem upload_speed_guard:
  assumes "received file body = Some dataBuffer"
  shows "(\<exists>r. upload x_upload_start file body receiveStartTime receiveEndTime = Served r \<and>
            totalTime r = js_sub (Fin receiveEndTime) (js_or x_upload_start (Fin receiveStartTime)) \<and>
            size_received r = length dataBuffer \<and> speed_text r = toFixed3 (speed r) \<and>
            (if js_gt (totalTime r) (Fin 0)
             then js_gt (js_mul (js_mul (js_div (totalTime r) (Fin 1000)) (Fin 1024)) (Fin 1024)) (Fin 0) \<and>
                  speed r = js_div (js_mul (Fin (of_nat (length dataBuffer))) (Fin 8))
                              (js_mul (js_mul (js_div (totalTime r) (Fin 1000)) (Fin 1024)) (Fin 1024)) \<and>
                  (\<exists>v. speed r = Fin v \<and> 0 \<le> v)
             else speed r = Fin 0 \<and> speed_text r = Some ''0.000'')) \<and>
         (\<exists>r. upload_multi x_upload_start file body receiveStartTime receiveEndTime = Served r \<and>
            totalTime r = js_sub (Fin receiveEndTime) (js_or x_upload_start (Fin receiveStartTime)) \<and>
            size_received r = length dataBuffer \<and> speed_text r = toFixed3 (speed r) \<and>
            (if js_gt (totalTime r) (Fin 0)
             then js_gt (js_mul (js_mul (js_div (totalTime r) (Fin 1000)) (Fin 1024)) (Fin 1024)) (Fin 0) \<and>
                  speed r = js_div (js_mul (Fin (of_nat (length dataBuffer))) (Fin 8))
                              (js_mul (js_mul (js_div (totalTime r) (Fin 1000)) (Fin 1024)) (Fin 1024)) \<and>
                  (\<exists>v. speed r = Fin v \<and> 0 \<le> v)
             else speed r = Fin 0 \<and> speed_text r = Some ''0.000''))"
proof -
  let ?tt = "js_sub (Fin receiveEndTime) (js_or x_upload_start (Fin receiveStartTime))"
  let ?n = "length dataBuffer"
  let ?div = "\<lambda>t. js_mul (js_mul (js_div t (Fin 1000)) (Fin 1024)) (Fin 1024)"
  let ?P = "\<lambda>r. totalTime r = ?tt \<and> size_received r = ?n \<and> speed_text r = toFixed3 (speed r) \<and>
      (if js_gt (totalTime r) (Fin 0)
       then js_gt (?div (totalTime r)) (Fin 0) \<and>
            speed r = js_div (js_mul (Fin (of_nat ?n)) (Fin 8)) (?div (totalTime r)) \<and>
            (\<exists>v. speed r = Fin v \<and> 0 \<le> v)
       else speed r = Fin 0 \<and> speed_text r = Some ''0.000'')"
  note g = speedMbps_guarded [of ?tt ?n]
  have reply: "?P r"
    if tt: "totalTime r = ?tt" and sz: "size_received r = ?n"
      and tx: "speed_text r = toFixed3 (speed r)" and sp: "speed r = speedMbps ?n ?tt"
    for r :: upload_reply
  proof -
    have "if js_gt (totalTime r) (Fin 0)
       then js_gt (?div (totalTime r)) (Fin 0) \<and>
            speed r = js_div (js_mul (Fin (of_nat ?n)) (Fin 8)) (?div (totalTime r)) \<and>
            (\<exists>v. speed r = Fin v \<and> 0 \<le> v)
       else speed r = Fin 0 \<and> speed_text r = Some ''0.000''"
      unfolding tx sp tt by (rule g)
    with tt sz tx show ?thesis by blast
  qed
  obtain r1 where u1: "upload x_upload_start file body receiveStartTime receiveEndTime = Served r1"
    and "totalTime r1 = ?tt" "size_received r1 = ?n" "speed_text r1 = toFixed3 (speed r1)"
      "speed r1 = speedMbps ?n ?tt"
    using assms by (simp add: upload_def Let_def)
  then have p1: "?P r1" by (intro reply)
  obtain r2 where u2: "upload_multi x_upload_start file body receiveStartTime receiveEndTime = Served r2"
    and "totalTime r2 = ?tt" "size_received r2 = ?n" "speed_text r2 = toFixed3 (speed r2)"
      "speed r2 = speedMbps ?n ?tt"
    using assms by (simp add: upload_multi_def Let_def)
  then have p2: "?P r2" by (intro reply)
  from u1 p1 have "\<exists>r. upload x_upload_start file body receiveStartTime receiveEndTime = Served r \<and> ?P r"
    by blast
  moreover from u2 p2
  have "\<exists>r. upload_multi x_upload_start file body receiveStartTime receiveEndTime = Served r \<and> ?P r"
    by blast
  ultimately show ?thesis by blast
qed

text \<open>
  The theorem on an upload of three bytes whose declared start, 2000, is after the end
  of the reception, 1000: the total time is -1000 and the speed 0. With no start
  declared the total time is the 100 ms of the reception and the speed the quotient.
\<close>

theorem upload_speed_guard_witness:
  "received (Some [1, 2, 3]) None = Some [1, 2, 3] \<and>
   (\<exists>r. upload (Fin 2000) (Some [1, 2, 3]) None 900 1000 = Served r \<and>
      totalTime r = Fin (- 1000) \<and> speed r = Fin 0 \<and> speed_text r = Some ''0.000'') \<and>
   (\<exists>r. upload_multi (Fin 2000) (Some [1, 2, 3]) None 900 1000 = Served r \<and>
      totalTime r = Fin (- 1000) \<and> speed r = Fin 0 \<and> speed_text r = Some ''0.000'') \<and>
   (\<exists>r. upload NaN (Some [1, 2, 3]) None 900 1000 = Served r \<and>
      totalTime r = Fin 100 \<and> speed r = Fin (15/65536))"
proof -
  have d: "received (Some [1, 2, 3]) None = Some [1, 2, 3]" by (simp add: received_def)
  have t: "js_sub (Fin 1000) (js_or (Fin 2000) (Fin 900)) = Fin (- 1000)"
    by (simp add: js_sub_def js_or_def)
  have t': "js_sub (Fin 1000) (js_or NaN (Fin 900)) = Fin 100"
    by (simp add: js_sub_def js_or_def)
  have late: "(\<exists>r. upload (Fin 2000) (Some [1, 2, 3]) None 900 1000 = Served r \<and>
      totalTime r = Fin (- 1000) \<and> speed r = Fin 0 \<and> speed_text r = Some ''0.000'') \<and>
   (\<exists>r. upload_multi (Fin 2000) (Some [1, 2, 3]) None 900 1000 = Served r \<and>
      totalTime r = Fin (- 1000) \<and> speed r = Fin 0 \<and> speed_text r = Some ''0.000'')"
    using upload_speed_guard [OF d, of "Fin 2000" 900 1000] unfolding t
    by (auto simp: js_gt_def)
  have "\<exists>r. upload NaN (Some [1, 2, 3]) None 900 1000 = Served r \<and>
      totalTime r = Fin 100 \<and> speed r = Fin (15/65536)"
    using upload_speed_guard [OF d, of NaN 900 1000] unfolding t'
    by (auto simp: js_gt_def)
  with d late show ?thesis by blast
qed

text \<open>An upload of 10 MB in 500 ms: 160 Mbit/s by the formula of the routes.\<close>

lemma upload_speed_example: "speedMbps (10 * 1024 * 1024) (Fin 500) = Fin 160"
  by (simp add: speedMbps_def js_gt_def)

section \<open>Latency probe\<close>

lemma latency_count_int:
  "latency_count (Fin (of_int c)) = Fin (of_int (min (if c = 0 then 5 else c) 10))"
  "latency_count NaN = Fin 5"
  by (simp_all add: latency_count_def js_or_def Math_min_Fin min_def)

lemma latency_interval_int:
  "latency_interval (Fin (of_int v)) = Fin (of_int (max v 100))"
  "latency_interval NaN = Fin 100"
  by (simp_all add: latency_interval_def js_or_def Math_max_Fin max_def)

text \<open>
  The calls of \<open>performMeasurement\<close> up to the one that responds, the \<open>r\<close>-th from a state
  on, when the clock was read at least \<open>r\<close> times.
\<close>

lemma performMeasurement_run:
  assumes "1 \<le> r" and "r \<le> length ts"
    and "\<forall>j. 1 \<le> j \<and> j < r \<longrightarrow> \<not> js_ge (Fin (of_nat (completed s + j))) cnt"
    and "js_ge (Fin (of_nat (completed s + r))) cnt"
  shows "measurements (performMeasurement cnt interval start ts i s) =
           measurements s @
             map (\<lambda>j. \<lparr>index = i + j, clientStartTime = start, serverTime = ts ! j,
                        latency = ts ! j - start\<rparr>) [0..<r] \<and>
         completed (performMeasurement cnt interval start ts i s) = completed s + r \<and>
         timers (performMeasurement cnt interval start ts i s) =
           timers s @ replicate (r - 1) interval \<and>
         response (performMeasurement cnt interval start ts i s) =
           Some (compute_statistics (measurements (performMeasurement cnt interval start ts i s))
                  (completed s + r))"
  using assms
proof (induction ts arbitrary: i s r)
  case Nil
  then show ?case by simp
next
  case (Cons t ts)
  let ?m = "\<lparr>index = i, clientStartTime = start, serverTime = t, latency = t - start\<rparr>"
  let ?s1 = "s\<lparr>measurements := measurements s @ [?m], completed := completed s + 1\<rparr>"
  show ?case
  proof (cases "r = 1")
    case True
    then have "js_ge (Fin (of_nat (completed s + 1))) cnt" using Cons.prems(4) by simp
    then show ?thesis using True by (simp add: Let_def)
  next
    case False
    then obtain q where r: "r = Suc q" and q: "1 \<le> q" using Cons.prems(1) by (cases r) auto
    have no: "\<not> js_ge (Fin (of_nat (completed s + 1))) cnt"
      using Cons.prems(3) False Cons.prems(1) by (metis le_neq_implies_less le_refl)
    let ?s2 = "?s1\<lparr>timers := timers ?s1 @ [interval]\<rparr>"
    have unfold: "performMeasurement cnt interval start (t # ts) i s =
        performMeasurement cnt interval start ts (i + 1) ?s2"
      using no by (simp add: Let_def)
    have a: "q \<le> length ts" using Cons.prems(2) r by simp
    have b: "\<forall>j. 1 \<le> j \<and> j < q \<longrightarrow> \<not> js_ge (Fin (of_nat (completed ?s2 + j))) cnt"
    proof (intro allI impI)
      fix j
      assume "1 \<le> j \<and> j < q"
      then have "1 \<le> Suc j \<and> Suc j < r" using r by simp
      with Cons.prems(3) have "\<not> js_ge (Fin (of_nat (completed s + Suc j))) cnt" by blast
      then show "\<not> js_ge (Fin (of_nat (completed ?s2 + j))) cnt" by simp
    qed
    have c: "js_ge (Fin (of_nat (completed ?s2 + q))) cnt"
      using Cons.prems(4) r by simp
    note ih = Cons.IH [OF q a b c, of "i + 1"]
    have shift: "map (\<lambda>j. \<lparr>index = i + j, clientStartTime = start, serverTime = (t # ts) ! j,
                        latency = (t # ts) ! j - start\<rparr>) [0..<Suc q] =
        ?m # map (\<lambda>j. \<lparr>index = i + 1 + j, clientStartTime = start, serverTime = ts ! j,
                        latency = ts ! j - start\<rparr>) [0..<q]"
      by (simp add: upt_conv_Cons map_Suc_upt [symmetric] del: upt_Suc)
    have rep: "[interval] @ replicate (q - 1) interval = replicate q interval"
      using q by (cases q) simp_all
    show ?thesis
      unfolding unfold r using ih shift rep by simp
  qed
qed

lemma foldl_plus: "foldl (+) a xs = a + sum_list xs" for a :: rat
  by (induction xs arbitrary: a) simp_all

lemma foldl_Math_min: "foldl (\<lambda>acc x. Math_min acc (Fin x)) (Fin a) xs = Fin (fold min xs a)"
  by (induction xs arbitrary: a) (simp_all add: Math_min_Fin min.commute)

lemma foldl_Math_max: "foldl (\<lambda>acc x. Math_max acc (Fin x)) (Fin a) xs = Fin (fold max xs a)"
  by (induction xs arbitrary: a) (simp_all add: Math_max_Fin max.commute)

lemma Math_min_list_Min:
  assumes "xs \<noteq> []"
  shows "Math_min_list xs = Fin (Min (set xs))"
proof -
  from assms obtain a ys where xs: "xs = a # ys" by (cases xs) auto
  have first: "Math_min PosInf (Fin a) = Fin a" by (simp add: Math_min_def)
  have "Math_min_list xs = foldl (\<lambda>acc x. Math_min acc (Fin x)) (Math_min PosInf (Fin a)) ys"
    by (simp add: Math_min_list_def xs)
  also have "\<dots> = Fin (fold min ys a)" unfolding first by (rule foldl_Math_min)
  also have "fold min ys a = Min (set xs)" unfolding xs by (rule Min.set_eq_fold [symmetric])
  finally show ?thesis .
qed

lemma Math_max_list_Max:
  assumes "xs \<noteq> []"
  shows "Math_max_list xs = Fin (Max (set xs))"
proof -
  from assms obtain a ys where xs: "xs = a # ys" by (cases xs) auto
  have first: "Math_max NegInf (Fin a) = Fin a" by (simp add: Math_max_def)
  have "Math_max_list xs = foldl (\<lambda>acc x. Math_max acc (Fin x)) (Math_max NegInf (Fin a)) ys"
    by (simp add: Math_max_list_def xs)
  also have "\<dots> = Fin (fold max ys a)" unfolding first by (rule foldl_Math_max)
  also have "fold max ys a = Max (set xs)" unfolding xs by (rule Max.set_eq_fold [symmetric])
  finally show ?thesis .
qed

lemma compute_statistics_nonempty:
  assumes "ms \<noteq> []"
  shows "compute_statistics ms n =
           \<lparr>stat_count = n,
            average = toFixed3 (Fin (sum_list (map latency ms) / of_nat (length ms))),
            minimum = toFixed3 (Fin (Min (set (map latency ms)))),
            maximum = toFixed3 (Fin (Max (set (map latency ms)))),
            jitter = toFixed3 (Fin (Max (set (map latency ms)) - Min (set (map latency ms))))\<rparr>"
  using assms
  by (simp add: compute_statistics_def Let_def foldl_plus Math_min_list_Min Math_max_list_Max
      js_sub_Fin del: toFixed3.simps)

subsection \<open>The format of \<open>toFixed(3)\<close>\<close>

lemma is_digit_nth: "k < 10 \<Longrightarrow> is_digit (''0123456789'' ! k)"
  unfolding is_digit_def by (rule nth_mem) simp

lemma dec_digits: "list_all is_digit (dec n) \<and> dec n \<noteq> []"
proof (induction n rule: dec.induct)
  case (1 n)
  show ?case
  proof (cases "n < 10")
    case True
    then show ?thesis by (simp add: dec_small is_digit_nth)
  next
    case False
    then show ?thesis using "1.IH" by (simp add: dec_big is_digit_nth)
  qed
qed

lemma three_decimals_intro:
  assumes "list_all is_digit a" and "a \<noteq> []" and "list_all is_digit b" and "length b = 3"
  shows "three_decimals (a @ ''.'' @ b)" and "three_decimals (''-'' @ a @ ''.'' @ b)"
proof -
  have hd: "hd a \<noteq> CHR ''-''"
  proof
    assume "hd a = CHR ''-''"
    moreover have "is_digit (hd a)" using assms(1,2) by (cases a) simp_all
    ultimately show False by (simp add: is_digit_def)
  qed
  have k: "length (a @ ''.'' @ b) - 4 = length a" "length (a @ ''.'' @ b) - 3 = Suc (length a)"
    "4 < length (a @ ''.'' @ b)"
    using assms(2,4) by (simp_all add: Suc_le_eq)
  have body: "(a @ ''.'' @ b) ! length a = CHR ''.''" "take (length a) (a @ ''.'' @ b) = a"
    "drop (Suc (length a)) (a @ ''.'' @ b) = b"
    by simp_all
  have plain: "three_decimals (a @ ''.'' @ b)"
    unfolding three_decimals_def Let_def
    using hd assms(1,2,3) k body by (simp add: hd_append)
  then show "three_decimals (a @ ''.'' @ b)" .
  have "three_decimals (CHR ''-'' # (a @ ''.'' @ b))"
    unfolding three_decimals_def Let_def
    using assms(1,3) k body by simp
  then show "three_decimals (''-'' @ a @ ''.'' @ b)" by simp
qed

lemma toFixed3_format:
  assumes "\<bar>x\<bar> < 10 ^ 21"
  shows "\<exists>txt. toFixed3 (Fin x) = Some txt \<and> three_decimals txt"
proof -
  define n where "n = nat \<lfloor>\<bar>x\<bar> * 1000 + 1/2\<rfloor>"
  define m where "m = (if length (dec n) \<le> 3 then replicate (4 - length (dec n)) CHR ''0'' @ dec n
                  else dec n)"
  have zero: "is_digit CHR ''0''" by (simp add: is_digit_def)
  have digits: "list_all is_digit m"
    using dec_digits [of n] zero by (simp add: m_def list_all_iff)
  have len: "4 \<le> length m" by (simp add: m_def)
  let ?a = "take (length m - 3) m" and ?b = "drop (length m - 3) m"
  have a: "list_all is_digit ?a" "?a \<noteq> []"
    using digits len by (auto simp: list_all_iff dest: in_set_takeD)
  have b: "list_all is_digit ?b" "length ?b = 3"
    using digits len by (auto simp: list_all_iff dest: in_set_dropD)
  have out: "toFixed3 (Fin x) = Some ((if x < 0 then ''-'' else []) @ ?a @ ''.'' @ ?b)"
    using assms by (simp add: Let_def n_def [symmetric] m_def [symmetric])
  show ?thesis
    unfolding out using three_decimals_intro [OF a b] by (cases "x < 0") simp_all
qed

lemma mean_bounds:
  fixes xs :: "rat list"
  assumes "xs \<noteq> []" and "\<forall>x \<in> set xs. 0 \<le> x \<and> x < B"
  shows "0 \<le> sum_list xs / of_nat (length xs) \<and> sum_list xs / of_nat (length xs) < B"
proof -
  have nonneg: "0 \<le> sum_list xs" using assms(2) by (simp add: sum_list_nonneg)
  have "sum_list xs < of_nat (length xs) * B"
    using assms
  proof (induction xs rule: list_nonempty_induct)
    case (single x)
    then show ?case by simp
  next
    case (cons x xs)
    then have "sum_list xs < of_nat (length xs) * B" and "x < B" by simp_all
    then show ?case by (simp add: algebra_simps)
  qed
  moreover have "0 < (of_nat (length xs) :: rat)" using assms(1) by simp
  ultimately show ?thesis using nonneg by (simp add: pos_divide_less_eq mult.commute)
qed

text \<open>
  Claim C9, as amended. With the count \<open>c\<close> and the interval \<open>v\<close> as \<open>parseInt\<close> read them
  (a value that is absent or not a number counts as 0), the probe takes
  \<open>max(1, min(c', 10))\<close> measurements, where \<open>c'\<close> is 5 when \<open>c\<close> is 0 and \<open>c\<close> otherwise: that
  is \<open>min(c, 10)\<close> for every \<open>c\<close> from 1 on, and one measurement for a negative \<open>c\<close>.
  The timers between the measurements all have the delay \<open>max(v, 100)\<close> ms; the
  latency of a measurement is its reading of the clock minus the reading at the start;
  the statistics are the mean, the minimum and the maximum of the latencies and the
  maximum minus the minimum, each printed by \<open>toFixed(3)\<close>, with three decimal places.
  The clock is taken not to run backwards and the latencies to stay below \<open>10^21\<close> ms,
  where \<open>toFixed\<close> changes to the notation with an exponent.
\<close>

theorem latency_probe:
  assumes "count_q = Fin (of_int c) \<or> (count_q = NaN \<and> c = 0)"
    and "interval_q = Fin (of_int v) \<or> (interval_q = NaN \<and> v = 0)"
    and "n = nat (max 1 (min (if c = 0 then 5 else c) 10))"
    and "n \<le> length readings"
    and "\<forall>j < n. start \<le> readings ! j \<and> readings ! j - start < 10 ^ 21"
    and "lat = map (\<lambda>j. readings ! j - start) [0..<n]"
    and "s = latency_advanced count_q interval_q start readings"
  shows "(1 \<le> c \<longrightarrow> n = nat (min c 10)) \<and>
         measurements s =
           map (\<lambda>j. \<lparr>index = j, clientStartTime = start, serverTime = readings ! j,
                      latency = readings ! j - start\<rparr>) [0..<n] \<and>
         timers s = replicate (n - 1) (Fin (of_int (max v 100))) \<and>
         (\<exists>st a b c d.
            response s = Some st \<and> stat_count st = n \<and>
            average st = toFixed3 (Fin (sum_list lat / of_nat n)) \<and>
            minimum st = toFixed3 (Fin (Min (set lat))) \<and>
            maximum st = toFixed3 (Fin (Max (set lat))) \<and>
            jitter st = toFixed3 (Fin (Max (set lat) - Min (set lat))) \<and>
            average st = Some a \<and> minimum st = Some b \<and> maximum st = Some c \<and> jitter st = Some d \<and>
            three_decimals a \<and> three_decimals b \<and> three_decimals c \<and> three_decimals d)"
proof -
  let ?k = "min (if c = 0 then 5 else c) 10"
  let ?s0 = "\<lparr>measurements = [], completed = 0, timers = [], response = None\<rparr>"
  let ?ms = "map (\<lambda>j. \<lparr>index = j, clientStartTime = start, serverTime = readings ! j,
                      latency = readings ! j - start\<rparr>) [0..<n]"
  have cnt: "latency_count count_q = Fin (of_int ?k)"
    using assms(1) latency_count_int(1) [of c] latency_count_int(2) by auto
  have itv: "latency_interval interval_q = Fin (of_int (max v 100))"
    using assms(2) latency_interval_int(1) [of v] latency_interval_int(2) by auto
  have n1: "1 \<le> n" using assms(3) by simp
  have stop: "js_ge (Fin (of_nat (completed ?s0 + n))) (Fin (of_int ?k))"
    unfolding js_ge_Fin using assms(3) by simp
  have go: "\<forall>j. 1 \<le> j \<and> j < n \<longrightarrow> \<not> js_ge (Fin (of_nat (completed ?s0 + j))) (Fin (of_int ?k))"
  proof (intro allI impI)
    fix j
    assume "1 \<le> j \<and> j < n"
    then have "int j < ?k" using assms(3) by linarith
    then have "\<not> (of_int ?k :: rat) \<le> of_nat j"
      by (metis of_int_of_nat_eq of_int_le_iff not_le)
    then show "\<not> js_ge (Fin (of_nat (completed ?s0 + j))) (Fin (of_int ?k))"
      unfolding js_ge_Fin by simp
  qed
  have s: "s = performMeasurement (Fin (of_int ?k)) (Fin (of_int (max v 100))) start readings 0 ?s0"
    unfolding assms(7) latency_advanced_def cnt itv ..
  from performMeasurement_run [OF n1 assms(4) go stop, of "Fin (of_int (max v 100))" start 0]
  have ms: "measurements s = ?ms"
    and tm: "timers s = replicate (n - 1) (Fin (of_int (max v 100)))"
    and rs: "response s = Some (compute_statistics (measurements s) n)"
    unfolding s [symmetric] by simp_all
  have ne: "?ms \<noteq> []" using n1 by simp
  have lat: "map latency ?ms = lat" unfolding assms(6) by (simp add: comp_def)
  have len: "length ?ms = n" by simp
  note st = compute_statistics_nonempty [OF ne, of n, unfolded lat len]
  have latne: "lat \<noteq> []" using n1 assms(6) by simp
  have range: "\<forall>x \<in> set lat. 0 \<le> x \<and> x < 10 ^ 21"
    using assms(5) unfolding assms(6) by auto
  have lenlat: "length lat = n" unfolding assms(6) by simp
  have mn: "Min (set lat) \<in> set lat" and mx: "Max (set lat) \<in> set lat"
    using latne by (simp_all add: Min_in Max_in)
  have le: "Min (set lat) \<le> Max (set lat)" using latne by (simp add: Min_le mx)
  have b_avg: "\<bar>sum_list lat / of_nat n\<bar> < 10 ^ 21"
  proof -
    from mean_bounds [OF latne range]
    have "0 \<le> sum_list lat / of_nat n" and "sum_list lat / of_nat n < 10 ^ 21"
      unfolding lenlat by blast+
    then show ?thesis by (simp only: abs_of_nonneg)
  qed
  have b_min: "\<bar>Min (set lat)\<bar> < 10 ^ 21" using range mn by fastforce
  have b_max: "\<bar>Max (set lat)\<bar> < 10 ^ 21" using range mx by fastforce
  have b_jit: "\<bar>Max (set lat) - Min (set lat)\<bar> < 10 ^ 21"
  proof -
    have "0 \<le> Min (set lat)" and "Max (set lat) < 10 ^ 21" using range mn mx by blast+
    with le show ?thesis by simp
  qed
  from toFixed3_format [OF b_avg] obtain a
    where a: "toFixed3 (Fin (sum_list lat / of_nat n)) = Some a" "three_decimals a" by blast
  from toFixed3_format [OF b_min] obtain b
    where b: "toFixed3 (Fin (Min (set lat))) = Some b" "three_decimals b" by blast
  from toFixed3_format [OF b_max] obtain c'
    where c': "toFixed3 (Fin (Max (set lat))) = Some c'" "three_decimals c'" by blast
  from toFixed3_format [OF b_jit] obtain d
    where d: "toFixed3 (Fin (Max (set lat) - Min (set lat))) = Some d" "three_decimals d" by blast
  let ?st = "compute_statistics ?ms n"
  have fields: "stat_count ?st = n"
    "average ?st = toFixed3 (Fin (sum_list lat / of_nat n))"
    "minimum ?st = toFixed3 (Fin (Min (set lat)))"
    "maximum ?st = toFixed3 (Fin (Max (set lat)))"
    "jitter ?st = toFixed3 (Fin (Max (set lat) - Min (set lat)))"
    unfolding st by simp_all
  have "\<exists>st a b c d.
      response s = Some st \<and> stat_count st = n \<and>
      average st = toFixed3 (Fin (sum_list lat / of_nat n)) \<and>
      minimum st = toFixed3 (Fin (Min (set lat))) \<and>
      maximum st = toFixed3 (Fin (Max (set lat))) \<and>
      jitter st = toFixed3 (Fin (Max (set lat) - Min (set lat))) \<and>
      average st = Some a \<and> minimum st = Some b \<and> maximum st = Some c \<and> jitter st = Some d \<and>
      three_decimals a \<and> three_decimals b \<and> three_decimals c \<and> three_decimals d"
    using rs [unfolded ms] fields a b c' d by metis
  moreover have "1 \<le> c \<longrightarrow> n = nat (min c 10)" using assms(3) by auto
  ultimately show ?thesis using ms tm by blast
qed

text \<open>
  The theorem on a probe of two measurements, 0.5 ms and 101.25 ms after the start at
  1000, with no interval given.
\<close>

theorem latency_probe_witness:
  "(2::nat) \<le> length [2001/2, 4405/4 :: rat] \<and>
   map index (measurements (latency_advanced (Fin 2) NaN 1000 [2001/2, 4405/4])) = [0, 1] \<and>
   map latency (measurements (latency_advanced (Fin 2) NaN 1000 [2001/2, 4405/4])) = [1/2, 405/4] \<and>
   timers (latency_advanced (Fin 2) NaN 1000 [2001/2, 4405/4]) = [Fin 100] \<and>
   (\<exists>st. response (latency_advanced (Fin 2) NaN 1000 [2001/2, 4405/4]) = Some st \<and>
      stat_count st = 2 \<and> average st = Some ''50.875'' \<and> minimum st = Some ''0.500'' \<and>
      maximum st = Some ''101.250'' \<and> jitter st = Some ''100.750'')"
proof -
  let ?r = "[2001/2, 4405/4 :: rat]"
  let ?lat = "map (\<lambda>j. ?r ! j - 1000) [0..<2]"
  have h1: "Fin 2 = Fin (of_int 2) \<or> (Fin 2 = NaN \<and> (2::int) = 0)" by simp
  have h2: "NaN = Fin (of_int 0) \<or> (NaN = NaN \<and> (0::int) = 0)" by simp
  have h3: "(2::nat) = nat (max 1 (min (if (2::int) = 0 then 5 else 2) 10))" by simp
  have h4: "(2::nat) \<le> length ?r" by simp
  have h5: "\<forall>j < 2. (1000::rat) \<le> ?r ! j \<and> ?r ! j - 1000 < 10 ^ 21"
    by (simp add: less_Suc_eq numeral_2_eq_2)
  have upt: "[0..<2] = [0, Suc 0]" by (simp add: upt_rec numeral_2_eq_2)
  have lat: "?lat = [1/2, 405/4]" unfolding upt by simp
  have mn: "Min (set [1/2, 405/4 :: rat]) = 1/2" and mx: "Max (set [1/2, 405/4 :: rat]) = 405/4"
    by simp_all
  have f1: "\<lfloor>\<bar>407/8 :: rat\<bar> * 1000 + 1/2\<rfloor> = 50875" by (simp add: floor_eq_iff)
  have f2: "\<lfloor>\<bar>1/2 :: rat\<bar> * 1000 + 1/2\<rfloor> = 500" by (simp add: floor_eq_iff)
  have f3: "\<lfloor>\<bar>405/4 :: rat\<bar> * 1000 + 1/2\<rfloor> = 101250" by (simp add: floor_eq_iff)
  have f4: "\<lfloor>\<bar>403/4 :: rat\<bar> * 1000 + 1/2\<rfloor> = 100750" by (simp add: floor_eq_iff)
  have t1: "toFixed3 (Fin (407/8)) = Some ''50.875''"
    using f1 by (simp add: dec_small dec_big)
  have t2: "toFixed3 (Fin (1/2)) = Some ''0.500''"
    using f2 by (simp add: dec_small dec_big)
  have t3: "toFixed3 (Fin (405/4)) = Some ''101.250''"
    using f3 by (simp add: dec_small dec_big)
  have t4: "toFixed3 (Fin (403/4)) = Some ''100.750''"
    using f4 by (simp add: dec_small dec_big)
  have avg: "sum_list [1/2, 405/4 :: rat] / of_nat 2 = 407/8" by simp
  have jit: "(405/4 :: rat) - 1/2 = 403/4" by simp
  note inst = latency_probe [OF h1 h2 h3 h4 h5 refl refl, unfolded lat mn mx avg jit t1 t2 t3 t4]
  show ?thesis
    using inst h4 unfolding upt by (auto simp del: toFixed3.simps)
qed

text \<open>
  Claim C9 as stated fails on a count that is not positive: the count -3 gives one
  measurement and the count 0 gives five, where \<open>min(c, 10)\<close> is -3 and 0.
\<close>

theorem latency_probe_counterexample:
  "completed (latency_advanced (Fin (- 3)) NaN 0 [1, 2, 3]) = 1 \<and>
   length (measurements (latency_advanced (Fin (- 3)) NaN 0 [1, 2, 3])) = 1 \<and>
   min (- 3) (10::int) = - 3 \<and>
   completed (latency_advanced (Fin 0) NaN 0 [1, 2, 3, 4, 5, 6]) = 5 \<and>
   length (measurements (latency_advanced (Fin 0) NaN 0 [1, 2, 3, 4, 5, 6])) = 5 \<and>
   min 0 (10::int) = 0"
  by (simp add: latency_advanced_def latency_count_def latency_interval_def js_or_def
      Math_min_Fin Math_max_Fin js_ge_Fin Let_def)

end
